theory Spec2Isabelle
  imports Complex_Main "HOL-Library.Word" "HOL-Library.Log_Nat"
begin

unbundle bit_operations_syntax

section \<open>Data model of the FastStack engine (fs.h)\<close>

text \<open>
  The enumerations of \<^verbatim>\<open>fs.h\<close> become datatypes, the struct \<^verbatim>\<open>FSGame\<close> a record.
  \<^verbatim>\<open>FSInt\<close> and \<^verbatim>\<open>FSLong\<close> values are modelled as unbounded \<open>int\<close>: none of the
  properties below depends on signed overflow, which is undefined in C. \<^verbatim>\<open>FSBits\<close>, the
  row mask of \<^verbatim>\<open>clearLines\<close>, is a 32-bit word (the source notes that it limits the
  field height to 32). The two \<^verbatim>\<open>float\<close> fields \<^verbatim>\<open>actualY\<close> and \<^verbatim>\<open>gravity\<close> hold
  the rational numbers that their binary32 values denote; float addition and
  multiplication round their exact result to binary32 (see \<open>f32\<close> below), and the
  conversion \<^verbatim>\<open>(int)\<close> is truncation towards zero.
\<close>

datatype PieceType = FS_I | FS_J | FS_L | FS_O | FS_S | FS_T | FS_Z | FS_NONE

datatype RandomizerType =
  FSRAND_UNDEFINED | FSRAND_SIMPLE | FSRAND_NOSZO_BAG7 | FSRAND_TGM1 | FSRAND_TGM2

datatype RotationSystemType =
  FSROT_SIMPLE | FSROT_SRS | FSROT_ARIKA_SRS | FSROT_TGM12 | FSROT_DTET

datatype LockStyle = FSLOCK_ENTRY | FSLOCK_STEP | FSLOCK_MOVE

datatype GameState =
  FSS_READY | FSS_GO | FSS_FALLING | FSS_LANDED | FSS_ARE | FSS_NEW_PIECE
  | FSS_LINES | FSS_QUIT | FSS_GAMEOVER | FSS_UNKNOWN

text \<open>Rotation amounts (\<^verbatim>\<open>enum RotationAmount\<close>); the engine receives them as \<^verbatim>\<open>FSInt\<close>.\<close>

definition FSROT_CLOCKWISE :: int where "FSROT_CLOCKWISE = 1"
definition FSROT_ANTICLOCKWISE :: int where "FSROT_ANTICLOCKWISE = - 1"
definition FSROT_HALFTURN :: int where "FSROT_HALFTURN = 2"

text \<open>
  The input snapshot \<^verbatim>\<open>FSInput\<close>. Its declaration (\<^verbatim>\<open>fsControl.h\<close>) is not part of the
  available sources; the four fields are the ones \<^verbatim>\<open>fsGameTick\<close> reads. The field
  \<^verbatim>\<open>gravity\<close> of the input is named \<open>inputGravity\<close> here, since the game record has a
  field \<open>gravity\<close> of its own.
\<close>

record FSInput =
  movement :: int
  rotation :: int
  inputGravity :: int
  extra :: "32 word"

text \<open>
  A wallkick table \<^verbatim>\<open>FSInt3 [FS_NPR][FS_MAX_KICK_LEN]\<close>, read as
  \<open>table theta k = (x, y, z)\<close>, and a rotation system (\<^verbatim>\<open>struct FSRotationSystem\<close>).
\<close>

type_synonym WallkickTable = "int \<Rightarrow> nat \<Rightarrow> int \<times> int \<times> int"

record FSRotationSystem =
  entryOffset :: "PieceType \<Rightarrow> int"
  entryTheta :: "PieceType \<Rightarrow> int"
  kicksL :: "PieceType \<Rightarrow> int"
  kicksR :: "PieceType \<Rightarrow> int"
  kicksH :: "PieceType \<Rightarrow> int"
  kickTables :: "int \<Rightarrow> WallkickTable"

text \<open>
  The static tables and constants that \<^verbatim>\<open>fs.c\<close> uses but that are declared in files
  outside the available sources (\<^verbatim>\<open>fsTables.c\<close>, \<^verbatim>\<open>fsConfig.h\<close>, \<^verbatim>\<open>fsControl.h\<close>,
  \<^verbatim>\<open>fsDefault.h\<close>, \<^verbatim>\<open>fsRand.c\<close>) are collected in one record that every function
  takes as its first argument. \<open>draws\<close> is the sequence of pieces that successive
  calls of \<^verbatim>\<open>fsNextRandomPiece\<close> return.
\<close>

record FSEnv =
  rotationSystems :: "RotationSystemType \<Rightarrow> FSRotationSystem"
  emptyWallkickTable :: WallkickTable
  WK_END :: int
  FS_MAX_KICK_LEN :: nat
  FS_PREVIEW_MAX :: nat
  FSI_HOLD :: "32 word"
  FSI_HARD_DROP :: "32 word"
  FSI_FINESSE_DIRECTION :: "32 word"
  FSI_FINESSE_ROTATION :: "32 word"
  FSD_FIELD_WIDTH :: int
  FSD_FIELD_HEIGHT :: int
  FSD_MS_PER_TICK :: int
  FSD_MS_PER_DRAW :: int
  FSD_ARE_DELAY :: int
  FSD_LOCK_STYLE :: LockStyle
  FSD_LOCK_DELAY :: int
  FSD_ROTATION_SYSTEM :: RotationSystemType
  FSD_GRAVITY :: rat
  FSD_SOFT_DROP_GRAVITY :: rat
  FSD_RANDOMIZER :: RandomizerType
  FSD_GOAL :: int
  draws :: "nat \<Rightarrow> PieceType"

text \<open>
  The game instance \<^verbatim>\<open>FSGame\<close>. The field \<open>b\<close> is read as \<open>b f row column\<close>, like
  \<^verbatim>\<open>f->b[y][x]\<close>. The randomizer's scratch buffer is represented by
  \<open>randomInternalIndex\<close> alone, the number of pieces drawn so far. Fields of the struct
  that \<^verbatim>\<open>fs.c\<close> never reads or writes after the initial \<^verbatim>\<open>memset\<close> are left out.
\<close>

record FSGame =
  b :: "int \<Rightarrow> int \<Rightarrow> int"
  fieldWidth :: int
  fieldHeight :: int
  nextPiece :: "PieceType list"
  randomInternalIndex :: nat
  piece :: PieceType
  x :: int
  y :: int
  actualY :: rat
  hardDropY :: int
  theta :: int
  finesse :: int
  finessePieceDirection :: int
  finessePieceRotation :: int
  msPerTick :: int
  msPerDraw :: int
  areDelay :: int
  areTimer :: int
  totalTicks :: int
  lockStyle :: LockStyle
  lockDelay :: int
  lockTimer :: int
  rotationSystem :: RotationSystemType
  gravity :: rat
  softDropGravity :: rat
  state :: GameState
  lastInput :: FSInput
  randomizer :: RandomizerType
  lastRandomizer :: RandomizerType
  holdAvailable :: bool
  holdPiece :: PieceType
  linesCleared :: int
  blocksPlaced :: int
  goal :: int

text \<open>
  Reading a table at the index of \<^verbatim>\<open>FS_NONE\<close> (7, one past the end of every per-piece
  array, or a rotation-indexed table at a rotation outside 0..3), calling \<^verbatim>\<open>abort\<close> and
  dividing by a zero \<^verbatim>\<open>msPerTick\<close> are the ways in which the engine code can fail; they
  are values of the model.
\<close>

datatype error = OutOfBounds | Abort | DivByZero

section \<open>Field and piece projection (fs.c, lines 30-158)\<close>

text \<open>\<^verbatim>\<open>pieceOffsets[piece][theta]\<close>: the four \<open>(x, y)\<close> offsets, in the source's order.\<close>

fun pieceOffsets :: "PieceType \<Rightarrow> int \<Rightarrow> (int \<times> int) list" where
  "pieceOffsets FS_I t =
     (if t = 0 then [(0, 1), (1, 1), (2, 1), (3, 1)]
      else if t = 1 then [(2, 0), (2, 1), (2, 2), (2, 3)]
      else if t = 2 then [(0, 2), (1, 2), (2, 2), (3, 2)]
      else [(1, 0), (1, 1), (1, 2), (1, 3)])"
| "pieceOffsets FS_J t =
     (if t = 0 then [(0, 0), (0, 1), (1, 1), (2, 1)]
      else if t = 1 then [(1, 0), (1, 1), (1, 2), (2, 0)]
      else if t = 2 then [(0, 1), (1, 1), (2, 1), (2, 2)]
      else [(0, 2), (1, 0), (1, 1), (1, 2)])"
| "pieceOffsets FS_L t =
     (if t = 0 then [(0, 1), (1, 1), (2, 0), (2, 1)]
      else if t = 1 then [(1, 0), (1, 1), (1, 2), (2, 2)]
      else if t = 2 then [(0, 1), (0, 2), (1, 1), (2, 1)]
      else [(0, 0), (1, 0), (1, 1), (1, 2)])"
| "pieceOffsets FS_O t = [(1, 0), (1, 1), (2, 0), (2, 1)]"
| "pieceOffsets FS_S t =
     (if t = 0 then [(0, 1), (1, 0), (1, 1), (2, 0)]
      else if t = 1 then [(1, 0), (1, 1), (2, 1), (2, 2)]
      else if t = 2 then [(0, 2), (1, 1), (1, 2), (2, 1)]
      else [(0, 0), (0, 1), (1, 1), (1, 2)])"
| "pieceOffsets FS_T t =
     (if t = 0 then [(0, 1), (1, 0), (1, 1), (2, 1)]
      else if t = 1 then [(1, 0), (1, 1), (1, 2), (2, 1)]
      else if t = 2 then [(0, 1), (1, 1), (1, 2), (2, 1)]
      else [(0, 1), (1, 0), (1, 1), (1, 2)])"
| "pieceOffsets FS_Z t =
     (if t = 0 then [(0, 0), (1, 0), (1, 1), (2, 1)]
      else if t = 1 then [(1, 1), (1, 2), (2, 0), (2, 1)]
      else if t = 2 then [(0, 1), (1, 1), (1, 2), (2, 2)]
      else [(0, 1), (0, 2), (1, 0), (1, 1)])"
| "pieceOffsets FS_NONE t = []"

text \<open>\<^verbatim>\<open>pieceColors\<close>: the cell value written for each piece.\<close>

fun pieceColors :: "PieceType \<Rightarrow> int" where
  "pieceColors FS_I = 16"
| "pieceColors FS_J = 32"
| "pieceColors FS_L = 48"
| "pieceColors FS_O = 64"
| "pieceColors FS_S = 80"
| "pieceColors FS_T = 96"
| "pieceColors FS_Z = 112"
| "pieceColors FS_NONE = 0"

text \<open>
  \<^verbatim>\<open>fsPieceToBlocks\<close>. The rotation index is \<^verbatim>\<open>(theta + rs->entryTheta[piece]) & 3\<close>.
  For \<^verbatim>\<open>FS_NONE\<close> the C code reads past the end of \<^verbatim>\<open>entryTheta\<close> and \<^verbatim>\<open>pieceOffsets\<close>.
\<close>

definition fsPieceToBlocks ::
  "FSEnv \<Rightarrow> FSGame \<Rightarrow> PieceType \<Rightarrow> int \<Rightarrow> int \<Rightarrow> int \<Rightarrow> error + (int \<times> int) list" where
  "fsPieceToBlocks env f p px py ptheta =
     (if p = FS_NONE then Inl OutOfBounds
      else
        let rs = rotationSystems env (rotationSystem f);
            calcTheta = (ptheta + entryTheta rs p) AND 3
        in Inr (map (\<lambda>(ox, oy). (ox + px, oy + py)) (pieceOffsets p calcTheta)))"

definition isOccupied :: "FSGame \<Rightarrow> int \<Rightarrow> int \<Rightarrow> bool" where
  "isOccupied f px py =
     (if px < 0 \<or> px \<ge> fieldWidth f \<or> py < 0 \<or> py \<ge> fieldHeight f then True
      else b f py px > 1)"

text \<open>The loop of \<^verbatim>\<open>isCollision\<close> over the four blocks, returning at the first hit.\<close>

fun anyOccupied :: "FSGame \<Rightarrow> (int \<times> int) list \<Rightarrow> bool" where
  "anyOccupied f [] = False"
| "anyOccupied f (blk # blks) =
     (if isOccupied f (fst blk) (snd blk) then True else anyOccupied f blks)"

definition isCollision :: "FSEnv \<Rightarrow> FSGame \<Rightarrow> int \<Rightarrow> int \<Rightarrow> int \<Rightarrow> error + bool" where
  "isCollision env f px py ptheta =
     (case fsPieceToBlocks env f (piece f) px py ptheta of
        Inl e \<Rightarrow> Inl e
      | Inr blocks \<Rightarrow> Inr (anyOccupied f blocks))"

section \<open>Locking, spawning, rotation, gravity (fs.c, lines 160-319)\<close>

text \<open>C's integer division truncates towards zero.\<close>

definition c_div :: "int \<Rightarrow> int \<Rightarrow> int" where
  "c_div a d = sgn a * sgn d * (\<bar>a\<bar> div \<bar>d\<bar>)"

text \<open>
  Modelled from the spec: the macro \<^verbatim>\<open>TICKS\<close> is defined in \<^verbatim>\<open>fsInternal.h\<close>, which is
  not among the available sources. The specification gives
  \<open>ticks(ms) = ms / msPerTick\<close>; the division is C's, and traps when \<^verbatim>\<open>msPerTick\<close> is 0.
\<close>

definition TICKS :: "FSGame \<Rightarrow> int \<Rightarrow> error + int" where
  "TICKS f ms = (if msPerTick f = 0 then Inl DivByZero else Inr (c_div ms (msPerTick f)))"

text \<open>The conversion \<^verbatim>\<open>(int)\<close> of a \<^verbatim>\<open>float\<close>: the fractional part is discarded.\<close>

definition int_of_float :: "rat \<Rightarrow> int" where
  "int_of_float r = (if r < 0 then \<lceil>r\<rceil> else \<lfloor>r\<rfloor>)"

text \<open>
  Arithmetic on \<^verbatim>\<open>float\<close> (IEEE 754 binary32, round to nearest, ties to even). A
  non-zero rational \<open>r\<close> with \<open>2 ^ e \<le> |r| < 2 ^ (e + 1)\<close> is rounded to the nearest
  multiple of \<open>2 ^ (e - 23)\<close> (24 significant bits); below the normal range, \<open>e < -126\<close>,
  the spacing stays \<open>2 ^ (-149)\<close>. Overflow to infinity is not modelled: like the
  integers, the exponent is unbounded above. The conversion of an \<^verbatim>\<open>FSInt\<close> to
  \<^verbatim>\<open>float\<close> is taken to be exact, as it is for every integer up to \<open>2 ^ 24\<close> in
  absolute value; the engine converts the tick length, the input gravity and the
  hard-drop row.
\<close>

definition pow2 :: "int \<Rightarrow> rat" where
  "pow2 e = (if 0 \<le> e then 2 ^ nat e else 1 / 2 ^ nat (- e))"

definition f32_exponent :: "rat \<Rightarrow> int" where
  "f32_exponent r =
     (if 1 \<le> \<bar>r\<bar> then int (floorlog 2 (nat \<lfloor>\<bar>r\<bar>\<rfloor>)) - 1
      else - int (floorlog 2 (nat (\<lceil>1 / \<bar>r\<bar>\<rceil> - 1))))"

definition round_even :: "rat \<Rightarrow> int" where
  "round_even r =
     (let n = \<lfloor>r\<rfloor>; d = r - of_int n
      in if d < 1 / 2 then n else if 1 / 2 < d then n + 1 else if even n then n else n + 1)"

definition f32 :: "rat \<Rightarrow> rat" where
  "f32 r =
     (if r = 0 then 0
      else let q = pow2 (max (f32_exponent r) (- 126) - 23)
           in of_int (round_even (r / q)) * q)"

definition f32_add :: "rat \<Rightarrow> rat \<Rightarrow> rat" where
  "f32_add a c = f32 (a + c)"

definition f32_mul :: "rat \<Rightarrow> rat \<Rightarrow> rat" where
  "f32_mul a c = f32 (a * c)"

text \<open>The loop of \<^verbatim>\<open>lockPiece\<close> that writes the piece's colour into its four cells.\<close>

fun writeBlocks :: "(int \<Rightarrow> int \<Rightarrow> int) \<Rightarrow> int \<Rightarrow> (int \<times> int) list \<Rightarrow> int \<Rightarrow> int \<Rightarrow> int" where
  "writeBlocks fld c [] = fld"
| "writeBlocks fld c (blk # blks) =
     writeBlocks (fld(snd blk := (fld (snd blk))(fst blk := c))) c blks"

text \<open>\<^verbatim>\<open>fLook\<close>, the local table of \<^verbatim>\<open>lockPiece\<close>, indexed by a rotation in 0..3.\<close>

definition fLook :: "int \<Rightarrow> int" where
  "fLook t = (if t = 0 then 0 else if t = 1 then 1 else if t = 2 then 2 else 1)"

definition lockPiece :: "FSEnv \<Rightarrow> FSGame \<Rightarrow> error + FSGame" where
  "lockPiece env f =
     (case fsPieceToBlocks env f (piece f) (x f) (y f) (theta f) of
        Inl e \<Rightarrow> Inl e
      | Inr blocks \<Rightarrow>
          let f1 = f\<lparr>blocksPlaced := blocksPlaced f + 1\<rparr>;
              f2 = f1\<lparr>b := writeBlocks (b f1) (pieceColors (piece f1)) blocks\<rparr>;
              wastedDirection =
                (if finessePieceDirection f2 > 2 then finessePieceDirection f2 - 2 else 0)
          in if piece f2 = FS_O then
               (if theta f2 < 0 \<or> theta f2 > 3 then Inl OutOfBounds
                else
                  let wastedRotation =
                        (if finessePieceRotation f2 > fLook (theta f2)
                         then finessePieceRotation f2 - fLook (theta f2) else 0)
                  in Inr (f2\<lparr>finesse := finesse f2 + (wastedDirection + wastedRotation)\<rparr>))
             else
               Inr (f2\<lparr>finesse := finesse f2 + (wastedDirection + finessePieceRotation f2)\<rparr>))"

text \<open>
  Modelled from the spec: \<^verbatim>\<open>fsNextRandomPiece\<close> is implemented in \<^verbatim>\<open>fsRand.c\<close>, which is
  not among the available sources. By the specification it returns the next piece of a
  deterministic sequence and records the selector in \<^verbatim>\<open>lastRandomizer\<close>; the sequence
  is the parameter \<open>draws\<close>.
\<close>

definition fsNextRandomPiece :: "FSEnv \<Rightarrow> FSGame \<Rightarrow> PieceType \<times> FSGame" where
  "fsNextRandomPiece env f =
     (draws env (randomInternalIndex f),
      f\<lparr>randomInternalIndex := Suc (randomInternalIndex f), lastRandomizer := randomizer f\<rparr>)"

text \<open>
  \<^verbatim>\<open>newPiece\<close>. The preview queue is the list \<open>nextPiece\<close> of \<^verbatim>\<open>FS_PREVIEW_MAX\<close> entries
  (one byte each, so that the \<^verbatim>\<open>memcpy\<close> of \<^verbatim>\<open>FS_PREVIEW_MAX - 1\<close> bytes moves every
  entry but the first one place forward).
\<close>

definition newPiece :: "FSEnv \<Rightarrow> FSGame \<Rightarrow> error + FSGame" where
  "newPiece env f =
     (let f1 = f\<lparr>x := c_div (fieldWidth f) 2 - 1, y := 0, actualY := 0, theta := 0,
                 lockTimer := 0, finessePieceRotation := 0, finessePieceDirection := 0\<rparr>
      in case nextPiece f1 of
           [] \<Rightarrow> Inl OutOfBounds
         | p # rest \<Rightarrow>
             let f2 = f1\<lparr>piece := p\<rparr>;
                 (q, f3) = fsNextRandomPiece env f2
             in Inr (f3\<lparr>nextPiece := rest @ [q], holdAvailable := True\<rparr>))"

text \<open>
  The kick loop of \<^verbatim>\<open>doRotate\<close>, over \<open>k = 0, ..., FS_MAX_KICK_LEN - 1\<close>; the result
  carries the returned flag and the game.
\<close>

fun doRotate_kicks ::
  "FSEnv \<Rightarrow> FSGame \<Rightarrow> int \<Rightarrow> WallkickTable \<Rightarrow> nat list \<Rightarrow> error + (bool \<times> FSGame)" where
  "doRotate_kicks env f newDir table [] = Inr (False, f)"
| "doRotate_kicks env f newDir table (k # ks) =
     (if theta f < 0 \<or> theta f > 3 then Inl OutOfBounds
      else
        case table (theta f) k of
          (kx, ky, kz) \<Rightarrow>
            if kz = WK_END env then Inr (False, f)
            else
              let kickX = kx + x f; kickY = ky + y f
              in case isCollision env f kickX kickY newDir of
                   Inl e \<Rightarrow> Inl e
                 | Inr c \<Rightarrow>
                     if \<not> c then Inr (True, f\<lparr>y := kickY, x := kickX, theta := newDir\<rparr>)
                     else doRotate_kicks env f newDir table ks)"

definition doRotate :: "FSEnv \<Rightarrow> FSGame \<Rightarrow> int \<Rightarrow> error + (bool \<times> FSGame)" where
  "doRotate env f direction =
     (let newDir = (theta f + 4 + direction) AND 3;
          rs = rotationSystems env (rotationSystem f)
      in if direction \<noteq> FSROT_CLOCKWISE \<and> direction \<noteq> FSROT_ANTICLOCKWISE
            \<and> direction \<noteq> FSROT_HALFTURN then Inl Abort
         else if piece f = FS_NONE then Inl OutOfBounds
         else
           let tableNo =
                 (if direction = FSROT_CLOCKWISE then kicksR rs (piece f)
                  else if direction = FSROT_ANTICLOCKWISE then kicksL rs (piece f)
                  else kicksH rs (piece f));
               table = (if tableNo \<ge> 0 then kickTables rs tableNo else emptyWallkickTable env)
           in doRotate_kicks env f newDir table [0..<FS_MAX_KICK_LEN env])"

text \<open>
  \<^verbatim>\<open>doPieceGravity\<close>. In \<^verbatim>\<open>f->actualY += (f->msPerTick * f->gravity) + gravity\<close> the
  product, the inner sum and the sum with \<^verbatim>\<open>actualY\<close> are float operations, each rounded.
\<close>

definition doPieceGravity :: "FSGame \<Rightarrow> int \<Rightarrow> FSGame" where
  "doPieceGravity f g =
     (let f1 = f\<lparr>actualY :=
                   f32_add (actualY f)
                     (f32_add (f32_mul (of_int (msPerTick f)) (gravity f)) (of_int g))\<rparr>
      in if actualY f1 \<ge> of_int (hardDropY f1) then
           let f2 = f1\<lparr>actualY := of_int (hardDropY f1)\<rparr>;
               f3 = f2\<lparr>y := hardDropY f2\<rparr>
           in if state f3 = FSS_FALLING then f3\<lparr>state := FSS_LANDED\<rparr> else f3
         else
           let f2 = (if (lockStyle f1 = FSLOCK_STEP \<or> lockStyle f1 = FSLOCK_MOVE)
                        \<and> int_of_float (actualY f1) > y f1
                     then f1\<lparr>lockTimer := 0\<rparr> else f1)
           in f2\<lparr>y := int_of_float (actualY f2), state := FSS_FALLING\<rparr>)"

section \<open>Line clearing (fs.c, lines 332-374)\<close>

text \<open>
  The inner loop of the first pass: \<open>rowFilled f row col\<close> is false as soon as a cell
  of the row at or after column \<open>col\<close> is 0 (the \<^verbatim>\<open>goto next_row\<close>), true when the
  columns up to \<^verbatim>\<open>fieldWidth\<close> are exhausted.
\<close>

function rowFilled :: "FSGame \<Rightarrow> int \<Rightarrow> int \<Rightarrow> bool" where
  "rowFilled f row col =
     (if col < fieldWidth f then
        (if b f row col = 0 then False else rowFilled f row (col + 1))
      else True)"
  by pat_completeness auto
termination
  by (relation "measure (\<lambda>(f, row, col). nat (fieldWidth f - col))") auto

declare rowFilled.simps [simp del]

text \<open>
  The first pass over the rows \<open>row, row + 1, ..., fieldHeight - 1\<close>. A filled row sets
  the lowest bit of \<^verbatim>\<open>foundLines\<close> and is counted; after every row the mask is shifted
  left by one.
\<close>

function scanLines :: "FSGame \<Rightarrow> int \<Rightarrow> 32 word \<Rightarrow> int \<Rightarrow> 32 word \<times> int" where
  "scanLines f row foundLines filledLineCount =
     (if row < fieldHeight f then
        (if rowFilled f row 0
         then scanLines f (row + 1) (push_bit 1 (foundLines OR 1)) (filledLineCount + 1)
         else scanLines f (row + 1) (push_bit 1 foundLines) filledLineCount)
      else (foundLines, filledLineCount))"
  by pat_completeness auto
termination
  by (relation "measure (\<lambda>(f, row, fl, c). nat (fieldHeight f - row))") auto

declare scanLines.simps [simp del]

text \<open>
  \<^verbatim>\<open>memcpy(f->b[dst], f->b[src], sizeof(FSBlock) * f->fieldWidth)\<close> and
  \<^verbatim>\<open>memset(f->b[i], 0, sizeof(FSBlock) * f->fieldWidth)\<close>: the first \<^verbatim>\<open>fieldWidth\<close> cells of
  a row are overwritten, the rest of the row is kept. With a negative \<^verbatim>\<open>fieldWidth\<close> the
  size passed to the C functions would wrap around; here nothing is written then.
\<close>

definition memcpyRow :: "int \<Rightarrow> (int \<Rightarrow> int \<Rightarrow> int) \<Rightarrow> int \<Rightarrow> int \<Rightarrow> int \<Rightarrow> int \<Rightarrow> int" where
  "memcpyRow w fld dst src =
     fld(dst := (\<lambda>col. if 0 \<le> col \<and> col < w then fld src col else fld dst col))"

definition memsetRow :: "int \<Rightarrow> (int \<Rightarrow> int \<Rightarrow> int) \<Rightarrow> int \<Rightarrow> int \<Rightarrow> int \<Rightarrow> int" where
  "memsetRow w fld row =
     fld(row := (\<lambda>col. if 0 \<le> col \<and> col < w then 0 else fld row col))"

text \<open>
  The second pass, from \<open>src\<close> down to row 0; the mask is shifted right by one after
  every row, also after a skipped one (\<^verbatim>\<open>continue\<close> runs the loop's step expression).
\<close>

function copyLines ::
  "int \<Rightarrow> (int \<Rightarrow> int \<Rightarrow> int) \<Rightarrow> int \<Rightarrow> int \<Rightarrow> 32 word \<Rightarrow> int \<Rightarrow> int \<Rightarrow> int" where
  "copyLines w fld src dst foundLines =
     (if src \<ge> 0 then
        (if foundLines AND 1 \<noteq> 0 then copyLines w fld (src - 1) dst (drop_bit 1 foundLines)
         else copyLines w (if src \<noteq> dst then memcpyRow w fld dst src else fld)
                (src - 1) (dst - 1) (drop_bit 1 foundLines))
      else fld)"
  by pat_completeness auto
termination
  by (relation "measure (\<lambda>(w, fld, src, dst, fl). nat (src + 1))") auto

declare copyLines.simps [simp del]

text \<open>The final loop, which zeroes the rows \<open>i, ..., filledLineCount - 1\<close>.\<close>

function zeroLines :: "int \<Rightarrow> (int \<Rightarrow> int \<Rightarrow> int) \<Rightarrow> int \<Rightarrow> int \<Rightarrow> int \<Rightarrow> int \<Rightarrow> int" where
  "zeroLines w fld i filledLineCount =
     (if i < filledLineCount then zeroLines w (memsetRow w fld i) (i + 1) filledLineCount
      else fld)"
  by pat_completeness auto
termination
  by (relation "measure (\<lambda>(w, fld, i, c). nat (c - i))") auto

declare zeroLines.simps [simp del]

text \<open>\<^verbatim>\<open>clearLines\<close> returns the number of filled rows together with the updated game.\<close>

definition clearLines :: "FSGame \<Rightarrow> int \<times> FSGame" where
  "clearLines f =
     (case scanLines f 0 0 0 of
        (found, filledLineCount) \<Rightarrow>
          let foundLines = drop_bit 1 found;
              dst = fieldHeight f - 1;
              fld1 = copyLines (fieldWidth f) (b f) dst dst foundLines;
              fld2 = zeroLines (fieldWidth f) fld1 0 filledLineCount
          in (filledLineCount, f\<lparr>b := fld2\<rparr>))"

section \<open>Hard-drop probe (fs.c, lines 378-386)\<close>

lemma pieceOffsets_rows_nonneg:
  "blk \<in> set (pieceOffsets p t) \<Longrightarrow> 0 \<le> snd blk"
  by (cases p) (auto split: if_splits)

lemma pieceOffsets_nonempty:
  "p \<noteq> FS_NONE \<Longrightarrow> pieceOffsets p t \<noteq> []"
  by (cases p) auto

lemma anyOccupied_iff:
  "anyOccupied f blks \<longleftrightarrow> (\<exists>blk \<in> set blks. isOccupied f (fst blk) (snd blk))"
  by (induction blks) auto

lemma no_collision_above_floor:
  assumes "isCollision env f px py pt = Inr False"
  shows "py < fieldHeight f"
proof -
  from assms have p: "piece f \<noteq> FS_NONE"
    by (auto simp: isCollision_def fsPieceToBlocks_def split: if_splits)
  define t where "t = (pt + entryTheta (rotationSystems env (rotationSystem f)) (piece f)) AND 3"
  from pieceOffsets_nonempty [OF p, of t] obtain blk where blk: "blk \<in> set (pieceOffsets (piece f) t)"
    by (cases "pieceOffsets (piece f) t") auto
  from assms p blk have "\<not> isOccupied f (fst blk + px) (snd blk + py)"
    by (auto simp: isCollision_def fsPieceToBlocks_def anyOccupied_iff t_def Let_def
        split: if_splits prod.splits)
  then have "snd blk + py < fieldHeight f"
    by (simp add: isOccupied_def split: if_splits)
  with pieceOffsets_rows_nonneg [OF blk] show ?thesis by linarith
qed

text \<open>
  The loop of \<^verbatim>\<open>updateHardDropY\<close>: the probe moves down while the piece does not
  collide. It ends, since a piece that does not collide lies above the floor.
\<close>

function hardDropProbe :: "FSEnv \<Rightarrow> FSGame \<Rightarrow> int \<Rightarrow> error + int" where
  "hardDropProbe env f py =
     (case isCollision env f (x f) py (theta f) of
        Inl e \<Rightarrow> Inl e
      | Inr c \<Rightarrow> if \<not> c then hardDropProbe env f (py + 1) else Inr py)"
  by pat_completeness auto
termination
proof (relation "measure (\<lambda>(env, f, py). nat (fieldHeight f - py))")
  show "wf (measure (\<lambda>(env, f, py). nat (fieldHeight f - py)))" by simp
next
  fix env :: FSEnv and f :: FSGame and py :: int and c :: bool
  assume "isCollision env f (x f) py (theta f) = Inr c" and "\<not> c"
  then have "py < fieldHeight f"
    using no_collision_above_floor [of env f "x f" py "theta f"] by simp
  then show "((env, f, py + 1), (env, f, py)) \<in> measure (\<lambda>(env, f, py). nat (fieldHeight f - py))"
    by simp
qed

declare hardDropProbe.simps [simp del]

definition updateHardDropY :: "FSEnv \<Rightarrow> FSGame \<Rightarrow> error + FSGame" where
  "updateHardDropY env f =
     (case hardDropProbe env f (y f) of
        Inl e \<Rightarrow> Inl e
      | Inr py \<Rightarrow> Inr (f\<lparr>hardDropY := py - 1\<rparr>))"

section \<open>The tick state machine (fs.c, lines 395-522)\<close>

text \<open>
  The body of \<^verbatim>\<open>case FSS_FALLING: case FSS_LANDED:\<close> is split into its steps. First the
  hold handling.
\<close>

definition doHold :: "FSEnv \<Rightarrow> FSInput \<Rightarrow> FSGame \<Rightarrow> error + FSGame" where
  "doHold env i f =
     (if extra i AND FSI_HOLD env \<noteq> 0 \<and> holdAvailable f then
        let f1 = f\<lparr>holdAvailable := False\<rparr>
        in if holdPiece f1 = FS_NONE then
             (case newPiece env (f1\<lparr>holdPiece := piece f1\<rparr>) of
                Inl e \<Rightarrow> Inl e
              | Inr f2 \<Rightarrow> Inr (f2\<lparr>holdAvailable := False\<rparr>))
           else
             let f2 = f1\<lparr>x := c_div (fieldWidth f1) 2 - 1, y := 0, actualY := 0,
                         theta := 0, lockTimer := 0\<rparr>;
                 t = holdPiece f2;
                 f3 = f2\<lparr>holdPiece := piece f2\<rparr>;
                 f4 = f3\<lparr>piece := t\<rparr>
             in updateHardDropY env f4
      else Inr f)"

definition doFinesseCounters :: "FSEnv \<Rightarrow> FSInput \<Rightarrow> FSGame \<Rightarrow> FSGame" where
  "doFinesseCounters env i f =
     (let f1 = (if extra i AND FSI_FINESSE_DIRECTION env \<noteq> 0
                then f\<lparr>finessePieceDirection := finessePieceDirection f + 1\<rparr> else f)
      in if extra i AND FSI_FINESSE_ROTATION env \<noteq> 0
         then f1\<lparr>finessePieceRotation := finessePieceRotation f1 + 1\<rparr> else f1)"

text \<open>
  The two movement loops, \<^verbatim>\<open>for (; distance < 0; ++distance)\<close> and
  \<^verbatim>\<open>for (; distance > 0; --distance)\<close>. Each carries the game, the flag \<^verbatim>\<open>moved\<close> and
  the remaining distance. Neither loop leaves at a collision: it goes on counting.
\<close>

function moveLeftLoop :: "FSEnv \<Rightarrow> FSGame \<Rightarrow> bool \<Rightarrow> int \<Rightarrow> error + (FSGame \<times> bool \<times> int)" where
  "moveLeftLoop env f moved distance =
     (if distance < 0 then
        (case isCollision env f (x f - 1) (y f) (theta f) of
           Inl e \<Rightarrow> Inl e
         | Inr c \<Rightarrow>
             if \<not> c then moveLeftLoop env (f\<lparr>x := x f - 1\<rparr>) True (distance + 1)
             else moveLeftLoop env f moved (distance + 1))
      else Inr (f, moved, distance))"
  by pat_completeness auto
termination
  by (relation "measure (\<lambda>(env, f, moved, distance). nat (- distance))") auto

declare moveLeftLoop.simps [simp del]

function moveRightLoop :: "FSEnv \<Rightarrow> FSGame \<Rightarrow> bool \<Rightarrow> int \<Rightarrow> error + (FSGame \<times> bool \<times> int)" where
  "moveRightLoop env f moved distance =
     (if distance > 0 then
        (case isCollision env f (x f + 1) (y f) (theta f) of
           Inl e \<Rightarrow> Inl e
         | Inr c \<Rightarrow>
             if \<not> c then moveRightLoop env (f\<lparr>x := x f + 1\<rparr>) True (distance - 1)
             else moveRightLoop env f moved (distance - 1))
      else Inr (f, moved, distance))"
  by pat_completeness auto
termination
  by (relation "measure (\<lambda>(env, f, moved, distance). nat distance)") auto

declare moveRightLoop.simps [simp del]

text \<open>The horizontal-movement step: \<^verbatim>\<open>distance = i->movement\<close>, then both loops.\<close>

definition doMovement :: "FSEnv \<Rightarrow> FSInput \<Rightarrow> FSGame \<Rightarrow> bool \<Rightarrow> error + (FSGame \<times> bool)" where
  "doMovement env i f moved =
     (case moveLeftLoop env f moved (movement i) of
        Inl e \<Rightarrow> Inl e
      | Inr (f1, moved1, distance1) \<Rightarrow>
          (case moveRightLoop env f1 moved1 distance1 of
             Inl e \<Rightarrow> Inl e
           | Inr (f2, moved2, distance2) \<Rightarrow> Inr (f2, moved2)))"

text \<open>
  The end of the body: the lock test and the lock timer. \<^verbatim>\<open>TICKS\<close> is not evaluated
  when the hard-drop bit is set (\<^verbatim>\<open>||\<close> is short-circuit).
\<close>

definition doLockCheck :: "FSEnv \<Rightarrow> FSInput \<Rightarrow> FSGame \<Rightarrow> error + FSGame" where
  "doLockCheck env i f =
     (case (if extra i AND FSI_HARD_DROP env \<noteq> 0 then Inr True
            else case TICKS f (lockDelay f) of
                   Inl e \<Rightarrow> Inl e
                 | Inr t \<Rightarrow> Inr (lockTimer f > t)) of
        Inl e \<Rightarrow> Inl e
      | Inr toLines \<Rightarrow>
          let f1 = (if toLines then f\<lparr>state := FSS_LINES\<rparr> else f)
          in Inr (if state f1 = FSS_LANDED then f1\<lparr>lockTimer := lockTimer f1 + 1\<rparr> else f1))"

definition tickFalling :: "FSEnv \<Rightarrow> FSInput \<Rightarrow> FSGame \<Rightarrow> error + FSGame" where
  "tickFalling env i f =
     (case doHold env i f of
        Inl e \<Rightarrow> Inl e
      | Inr f1 \<Rightarrow>
          let f2 = doFinesseCounters env i f1
          in case (if rotation i \<noteq> 0 then doRotate env f2 (rotation i) else Inr (False, f2)) of
               Inl e \<Rightarrow> Inl e
             | Inr (moved1, f3) \<Rightarrow>
                 (case doMovement env i f3 moved1 of
                    Inl e \<Rightarrow> Inl e
                  | Inr (f4, moved) \<Rightarrow>
                      (case (if moved then
                               (case updateHardDropY env f4 of
                                  Inl e \<Rightarrow> Inl e
                                | Inr f5 \<Rightarrow>
                                    Inr (if lockStyle f5 = FSLOCK_MOVE
                                         then f5\<lparr>lockTimer := 0\<rparr> else f5))
                             else Inr f4) of
                         Inl e \<Rightarrow> Inl e
                       | Inr f6 \<Rightarrow> doLockCheck env i (doPieceGravity f6 (inputGravity i)))))"

text \<open>
  The body of \<^verbatim>\<open>case FSS_LINES:\<close> up to its \<^verbatim>\<open>goto\<close>: lock the piece, invalidate it,
  clear the lines and choose the next state.
\<close>

definition tickLines :: "FSEnv \<Rightarrow> FSGame \<Rightarrow> error + FSGame" where
  "tickLines env f =
     (case lockPiece env f of
        Inl e \<Rightarrow> Inl e
      | Inr f1 \<Rightarrow>
          let f2 = f1\<lparr>piece := FS_NONE\<rparr>;
              r = clearLines f2;
              f3 = (snd r)\<lparr>linesCleared := linesCleared (snd r) + fst r\<rparr>
          in Inr (f3\<lparr>state := (if linesCleared f3 < goal f3 then FSS_ARE else FSS_GAMEOVER)\<rparr>))"

lemma tickLines_state:
  "tickLines env f = Inr f' \<Longrightarrow> state f' = FSS_ARE \<or> state f' = FSS_GAMEOVER"
  by (auto simp: tickLines_def Let_def split: sum.splits if_splits)

text \<open>
  The dispatch at the label \<^verbatim>\<open>beginTick\<close>; a \<^verbatim>\<open>goto beginTick\<close> is a recursive call.
  The test \<^verbatim>\<open>f->areTimer++ > TICKS(f->areDelay)\<close> compares the value the timer had
  before the increment.
\<close>

definition stateRank :: "GameState \<Rightarrow> nat" where
  "stateRank s =
     (if s = FSS_LINES then 3 else if s = FSS_ARE then 2 else if s = FSS_NEW_PIECE then 1 else 0)"

function beginTick :: "FSEnv \<Rightarrow> FSInput \<Rightarrow> FSGame \<Rightarrow> error + FSGame" where
  "beginTick env i f =
     (if state f = FSS_ARE then
        (case TICKS f (areDelay f) of
           Inl e \<Rightarrow> Inl e
         | Inr t \<Rightarrow>
             let f1 = f\<lparr>areTimer := areTimer f + 1\<rparr>
             in if areTimer f > t
                then beginTick env i (f1\<lparr>areTimer := 0, state := FSS_NEW_PIECE\<rparr>)
                else Inr f1)
      else if state f = FSS_NEW_PIECE then
        (case newPiece env f of
           Inl e \<Rightarrow> Inl e
         | Inr f1 \<Rightarrow>
             (case isCollision env f1 (x f1) (y f1) (theta f1) of
                Inl e \<Rightarrow> Inl e
              | Inr c \<Rightarrow>
                  if c then beginTick env i (f1\<lparr>state := FSS_GAMEOVER\<rparr>)
                  else
                    (case updateHardDropY env f1 of
                       Inl e \<Rightarrow> Inl e
                     | Inr f2 \<Rightarrow> Inr (f2\<lparr>state := FSS_FALLING\<rparr>))))
      else if state f = FSS_FALLING \<or> state f = FSS_LANDED then tickFalling env i f
      else if state f = FSS_LINES then
        (case tickLines env f of
           Inl e \<Rightarrow> Inl e
         | Inr f1 \<Rightarrow> beginTick env i f1)
      else Inr f)"
  by pat_completeness auto
termination
  by (relation "measure (\<lambda>(env, i, f). stateRank (state f))")
    (auto simp: stateRank_def dest: tickLines_state)

declare beginTick.simps [simp del]

definition fsGameTick :: "FSEnv \<Rightarrow> FSGame \<Rightarrow> FSInput \<Rightarrow> error + FSGame" where
  "fsGameTick env f i =
     (case beginTick env i (f\<lparr>lastInput := i\<rparr>) of
        Inl e \<Rightarrow> Inl e
      | Inr f1 \<Rightarrow> Inr (f1\<lparr>totalTicks := totalTicks f1 + 1\<rparr>))"

section \<open>Reset (fs.c, lines 80-115)\<close>

text \<open>
  The state after \<^verbatim>\<open>memset(f, 0, sizeof(FSGame))\<close>: every number is 0, every enumeration
  has its first value, the flag is false.
\<close>

definition zeroedGame :: "FSEnv \<Rightarrow> FSGame" where
  "zeroedGame env =
     \<lparr> b = (\<lambda>row col. 0), fieldWidth = 0, fieldHeight = 0,
       nextPiece = replicate (FS_PREVIEW_MAX env) FS_I, randomInternalIndex = 0,
       piece = FS_I, x = 0, y = 0, actualY = 0, hardDropY = 0, theta = 0, finesse = 0,
       finessePieceDirection = 0, finessePieceRotation = 0, msPerTick = 0, msPerDraw = 0,
       areDelay = 0, areTimer = 0, totalTicks = 0, lockStyle = FSLOCK_ENTRY, lockDelay = 0,
       lockTimer = 0, rotationSystem = FSROT_SIMPLE, gravity = 0, softDropGravity = 0,
       state = FSS_READY,
       lastInput = \<lparr> movement = 0, rotation = 0, inputGravity = 0, extra = 0 \<rparr>,
       randomizer = FSRAND_UNDEFINED, lastRandomizer = FSRAND_UNDEFINED,
       holdAvailable = False, holdPiece = FS_I, linesCleared = 0, blocksPlaced = 0,
       goal = 0 \<rparr>"

text \<open>The loop that fills the preview queue, over \<open>i = 0, ..., FS_PREVIEW_MAX - 1\<close>.\<close>

fun fillPreview :: "FSEnv \<Rightarrow> FSGame \<Rightarrow> nat list \<Rightarrow> FSGame" where
  "fillPreview env f [] = f"
| "fillPreview env f (k # ks) =
     (case fsNextRandomPiece env f of
        (p, f1) \<Rightarrow> fillPreview env (f1\<lparr>nextPiece := (nextPiece f1)[k := p]\<rparr>) ks)"

definition fsGameClear :: "FSEnv \<Rightarrow> FSGame" where
  "fsGameClear env =
     (let f0 = zeroedGame env;
          f1 = f0\<lparr>lastRandomizer := FSRAND_UNDEFINED\<rparr>;
          f2 = f1\<lparr>fieldWidth := FSD_FIELD_WIDTH env, fieldHeight := FSD_FIELD_HEIGHT env,
                  msPerTick := FSD_MS_PER_TICK env, msPerDraw := FSD_MS_PER_DRAW env,
                  areDelay := FSD_ARE_DELAY env, lockStyle := FSD_LOCK_STYLE env,
                  lockDelay := FSD_LOCK_DELAY env, rotationSystem := FSD_ROTATION_SYSTEM env,
                  gravity := FSD_GRAVITY env, softDropGravity := FSD_SOFT_DROP_GRAVITY env,
                  randomizer := FSD_RANDOMIZER env, goal := FSD_GOAL env\<rparr>;
          f3 = f2\<lparr>state := FSS_NEW_PIECE, holdAvailable := True, holdPiece := FS_NONE\<rparr>
      in case fsNextRandomPiece env f3 of
           (p, f4) \<Rightarrow> fillPreview env (f4\<lparr>piece := p\<rparr>) [0..<FS_PREVIEW_MAX env])"

section \<open>Command-line options (engine/option.c, lines 183-212)\<close>

text \<open>
  \<^verbatim>\<open>struct FSOptions\<close>; the pointer \<^verbatim>\<open>replay\<close> is \<open>None\<close> when null. A call of
  \<^verbatim>\<open>fsParseOptString\<close> either returns with the options filled in or leaves the process
  through \<^verbatim>\<open>exit\<close>, after printing.
\<close>

record FSOptions =
  verbosity :: int
  no_ini :: bool
  replay :: "string option"

datatype printed = Usage | UnknownArgument string

datatype parse_outcome = Returned FSOptions | Exited int printed

text \<open>
  Modelled from the spec: the log levels are declared in \<^verbatim>\<open>log.h\<close>, which is not among
  the available sources. The specification lists them as DEBUG, INFO, WARNING, ERROR,
  FATAL, the order of the name table in \<^verbatim>\<open>fsLog.c\<close>.
\<close>

definition FS_LOG_LEVEL_DEBUG :: int where "FS_LOG_LEVEL_DEBUG = 0"
definition FS_LOG_LEVEL_INFO :: int where "FS_LOG_LEVEL_INFO = 1"

text \<open>
  \<^verbatim>\<open>strcmp(s, t) == 0\<close> on C strings is equality; \<^verbatim>\<open>strncmp(s, t, n) == 0\<close> holds when
  the strings agree on their first \<open>n\<close> characters (or are equal and shorter).
\<close>

definition strncmp_eq :: "string \<Rightarrow> string \<Rightarrow> nat \<Rightarrow> bool" where
  "strncmp_eq s t n \<longleftrightarrow> take n s = take n t"

text \<open>The loop over \<^verbatim>\<open>argv[1], ..., argv[argc - 1]\<close>, with the source's order of tests.\<close>

fun parseArgs :: "FSOptions \<Rightarrow> string list \<Rightarrow> parse_outcome" where
  "parseArgs opts [] = Returned opts"
| "parseArgs opts (opt # rest) =
     (if opt = ''-v'' then parseArgs (opts\<lparr>verbosity := FS_LOG_LEVEL_INFO\<rparr>) rest
      else if opt = ''-vv'' then parseArgs (opts\<lparr>verbosity := FS_LOG_LEVEL_DEBUG\<rparr>) rest
      else if opt = ''-i'' \<or> opt = ''--no-ini'' then parseArgs (opts\<lparr>no_ini := True\<rparr>) rest
      else if opt = ''-h'' \<or> opt = ''--help'' then Exited 0 Usage
      else if strncmp_eq ''-'' opt 1 \<and> strncmp_eq ''--'' opt 2
        then parseArgs (opts\<lparr>replay := Some opt\<rparr>) rest
      else Exited 1 (UnknownArgument opt))"

definition fsParseOptString :: "string list \<Rightarrow> parse_outcome" where
  "fsParseOptString argv =
     parseArgs \<lparr> verbosity = 0, no_ini = False, replay = None \<rparr> (drop 1 argv)"

section \<open>A concrete configuration\<close>

text \<open>
  Modelled from the spec: the rotation tables (\<^verbatim>\<open>fsTables.c\<close>), the defaults
  (\<^verbatim>\<open>fsDefault.h\<close>) and the input bits (\<^verbatim>\<open>fsControl.h\<close>) are not among the available
  sources. For the end-to-end scenario and for concrete instances of the theorems below,
  one configuration is fixed, following the specification: the piece offsets are in SRS
  form, so that the entry rotation of every piece is 0; the empty wallkick table has the
  single kick \<open>(0, 0)\<close>; the field is 10 by 20 with 16 ms per tick, gravity 0, a lock
  delay of 500 ms, lock style STEP and a goal of 40 lines; the randomizer deals I pieces.
  Rotation uses the empty table for every piece, and the four input bits are distinct.
\<close>

definition scenarioWallkickTable :: WallkickTable where
  "scenarioWallkickTable t k = (if k = 0 then (0, 0, 0) else (0, 0, 127))"

definition scenarioRotationSystem :: FSRotationSystem where
  "scenarioRotationSystem =
     \<lparr> entryOffset = (\<lambda>p. 0), entryTheta = (\<lambda>p. 0), kicksL = (\<lambda>p. - 1),
       kicksR = (\<lambda>p. - 1), kicksH = (\<lambda>p. - 1),
       kickTables = (\<lambda>n. scenarioWallkickTable) \<rparr>"

definition scenarioEnv :: FSEnv where
  "scenarioEnv =
     \<lparr> rotationSystems = (\<lambda>r. scenarioRotationSystem),
       emptyWallkickTable = scenarioWallkickTable, WK_END = 127, FS_MAX_KICK_LEN = 5,
       FS_PREVIEW_MAX = 5, FSI_HOLD = 1, FSI_HARD_DROP = 2, FSI_FINESSE_DIRECTION = 4,
       FSI_FINESSE_ROTATION = 8, FSD_FIELD_WIDTH = 10, FSD_FIELD_HEIGHT = 20,
       FSD_MS_PER_TICK = 16, FSD_MS_PER_DRAW = 16, FSD_ARE_DELAY = 0,
       FSD_LOCK_STYLE = FSLOCK_STEP, FSD_LOCK_DELAY = 500, FSD_ROTATION_SYSTEM = FSROT_SRS,
       FSD_GRAVITY = 0, FSD_SOFT_DROP_GRAVITY = 1, FSD_RANDOMIZER = FSRAND_NOSZO_BAG7,
       FSD_GOAL = 40, draws = (\<lambda>n. FS_I) \<rparr>"

text \<open>
  Two game states in this configuration, for concrete instances: an I piece that has
  just been spawned on the empty field (column 4, row 0, hard-drop row 18), and the same
  piece resting on the floor in column 0.
\<close>

definition spawnedExample :: FSGame where
  "spawnedExample =
     (fsGameClear scenarioEnv)\<lparr>x := 4, hardDropY := 18, state := FSS_FALLING\<rparr>"

definition landedExample :: FSGame where
  "landedExample =
     (fsGameClear scenarioEnv)\<lparr>y := 18, actualY := 18, hardDropY := 18, state := FSS_LANDED\<rparr>"

text \<open>
  The spawned piece with a configured gravity of 1/32 row per millisecond (half a row per
  tick), and an input whose gravity contribution is one row upwards.
\<close>

definition gravityExample :: FSGame where
  "gravityExample = spawnedExample\<lparr>gravity := 1 / 32\<rparr>"

text \<open>
  The spawned piece with 10 ms per tick and a gravity of \<^verbatim>\<open>0.7f\<close>, the binary32 value
  nearest to 0.7: the float product \<^verbatim>\<open>10 * 0.7f\<close> rounds to exactly 7.
\<close>

definition roundingExample :: FSGame where
  "roundingExample = spawnedExample\<lparr>msPerTick := 10, gravity := 11744051 / 16777216\<rparr>"

definition negGravityInput :: FSInput where
  "negGravityInput = \<lparr> movement = 0, rotation = 0, inputGravity = - 1, extra = 0 \<rparr>"

text \<open>
  Inputs of the scenario: no input at all; the hard-drop bit alone; the hard-drop bit
  together with a gravity contribution of 20 rows, the height of the field.
\<close>

definition idleInput :: FSInput where
  "idleInput = \<lparr> movement = 0, rotation = 0, inputGravity = 0, extra = 0 \<rparr>"

definition hardDropInput :: FSInput where
  "hardDropInput = \<lparr> movement = 0, rotation = 0, inputGravity = 0, extra = 2 \<rparr>"

definition hardDropGravityInput :: FSInput where
  "hardDropGravityInput = \<lparr> movement = 0, rotation = 0, inputGravity = 20, extra = 2 \<rparr>"

text \<open>
  A game about to lock its last line: rows 2 to 19 are filled except for column 0, row 1
  is filled except for columns 4 to 7, the I piece lies in that gap on top of the stack,
  the state is LINES and one line remains to the goal.
\<close>

definition lastLineExample :: FSGame where
  "lastLineExample =
     (fsGameClear scenarioEnv)
       \<lparr>b := (\<lambda>row col.
                if (row = 1 \<and> (col < 4 \<or> 7 < col)) \<or> (2 \<le> row \<and> row \<le> 19 \<and> col \<noteq> 0)
                then 32 else 0),
        x := 4, y := 0, actualY := 0, hardDropY := 0, state := FSS_LINES, goal := 1\<rparr>"

text \<open>
  A game waiting in ARE with the timer at 0, as the LINES branch leaves it; the entry
  delay of the configuration is 0 ms, that is 0 ticks.
\<close>

definition areExample :: FSGame where
  "areExample = (fsGameClear scenarioEnv)\<lparr>piece := FS_NONE, state := FSS_ARE\<rparr>"

section \<open>Repeated ticks\<close>

text \<open>
  The host calls \<^verbatim>\<open>fsGameTick\<close> once per logic tick; a run over a list of inputs stops at
  the first failure.
\<close>

fun fsGameTicks :: "FSEnv \<Rightarrow> FSGame \<Rightarrow> FSInput list \<Rightarrow> error + FSGame" where
  "fsGameTicks env f [] = Inr f"
| "fsGameTicks env f (i # inputs) =
     (case fsGameTick env f i of Inl e \<Rightarrow> Inl e | Inr f1 \<Rightarrow> fsGameTicks env f1 inputs)"

text \<open>The invariant behind the goal: the game is over or the goal is not exceeded.\<close>

definition goalInv :: "FSGame \<Rightarrow> bool" where
  "goalInv f \<longleftrightarrow> state f = FSS_GAMEOVER \<or> linesCleared f \<le> goal f"

text \<open>
  Two small fields for the line-clearing algorithm: a field one row high and no column
  wide, and a field of three rows and two columns whose middle row is filled.
\<close>

definition zeroWidthExample :: FSGame where
  "zeroWidthExample = (fsGameClear scenarioEnv)\<lparr>fieldWidth := 0, fieldHeight := 1\<rparr>"

definition threeRowExample :: FSGame where
  "threeRowExample =
     (fsGameClear scenarioEnv)
       \<lparr>b := (\<lambda>row col. if row = 0 \<and> col = 0 then 5 else if row = 1 then 7
                       else if row = 2 \<and> col = 1 then 9 else 0),
        fieldWidth := 2, fieldHeight := 3\<rparr>"

section \<open>Reference definitions that follow the specification's wording\<close>

text \<open>
  Horizontal movement as the specification describes it (section 4.6, step 4): from
  column \<open>px\<close>, step one cell at a time in direction \<open>dir\<close>, each step gated by the
  collision test at the next cell, and stop at the first collision or after \<open>n\<close> steps.
\<close>

fun slide :: "FSEnv \<Rightarrow> FSGame \<Rightarrow> int \<Rightarrow> nat \<Rightarrow> int \<Rightarrow> error + int" where
  "slide env f dir 0 px = Inr px"
| "slide env f dir (Suc n) px =
     (case isCollision env f (px + dir) (y f) (theta f) of
        Inl e \<Rightarrow> Inl e
      | Inr c \<Rightarrow> if c then Inr px else slide env f dir n (px + dir))"

text \<open>
  \<open>applyGravity\<close> as the specification describes it (section 4.3), in float
  arithmetic, with the conversion of the accumulator to a row left as a parameter: the
  specification's wording is \<open>applyGravity floor\<close>. \<open>gravitySum f g\<close> is the accumulator
  after \<open>msPerTick * gravity + inputGravity\<close> has been added to it.
\<close>

definition gravitySum :: "FSGame \<Rightarrow> int \<Rightarrow> rat" where
  "gravitySum f g =
     f32_add (actualY f) (f32_add (f32_mul (of_int (msPerTick f)) (gravity f)) (of_int g))"

definition applyGravity :: "(rat \<Rightarrow> int) \<Rightarrow> FSGame \<Rightarrow> int \<Rightarrow> FSGame" where
  "applyGravity rnd f g =
     (let a = gravitySum f g
      in if a \<ge> of_int (hardDropY f) then
           f\<lparr>actualY := of_int (hardDropY f), y := hardDropY f,
             state := (if state f = FSS_FALLING then FSS_LANDED else state f)\<rparr>
         else
           f\<lparr>actualY := a,
             lockTimer := (if (lockStyle f = FSLOCK_STEP \<or> lockStyle f = FSLOCK_MOVE) \<and> rnd a > y f
                           then 0 else lockTimer f),
             y := rnd a, state := FSS_FALLING\<rparr>)"

text \<open>
  A row is filled when none of its cells in the columns of the field is 0: the test of
  the first pass of \<^verbatim>\<open>clearLines\<close>, stated without the loop. In a field without
  columns every row is filled.
\<close>

definition fullRow :: "FSGame \<Rightarrow> int \<Rightarrow> bool" where
  "fullRow f row \<longleftrightarrow> (\<forall>col. 0 \<le> col \<and> col < fieldWidth f \<longrightarrow> b f row col \<noteq> 0)"

text \<open>\<open>countBetween P lo hi\<close> is the number of rows \<open>r\<close> with \<open>lo < r \<le> hi\<close> and \<open>P r\<close>.\<close>

definition countBetween :: "(int \<Rightarrow> bool) \<Rightarrow> int \<Rightarrow> int \<Rightarrow> int" where
  "countBetween P lo hi = int (card {r. lo < r \<and> r \<le> hi \<and> P r})"

section \<open>Invariants of the line-clearing loops\<close>

text \<open>
  After the first pass has handled the rows above \<open>row\<close>, bit \<open>k\<close> of the mask is set
  exactly when \<open>1 \<le> k < 32\<close> and row \<open>row - k\<close> exists and is filled.
\<close>

definition rowBits :: "FSGame \<Rightarrow> int \<Rightarrow> 32 word \<Rightarrow> bool" where
  "rowBits f row w \<longleftrightarrow>
     (\<forall>k. bit w k \<longleftrightarrow> 1 \<le> k \<and> k < 32 \<and> int k \<le> row \<and> fullRow f (row - int k))"

text \<open>
  What the second pass has achieved for the rows \<open>0, ..., src\<close> when the rows marked by
  \<open>P\<close> are skipped: a row that is not skipped has been copied to its place (its index
  plus the distance between the cursors plus the number of skipped rows below it), the
  rows below the destination cursor are untouched, and every row down to the final
  position of the destination cursor holds one of the copied rows.
\<close>

definition copySpec ::
  "(int \<Rightarrow> bool) \<Rightarrow> int \<Rightarrow> (int \<Rightarrow> int \<Rightarrow> int) \<Rightarrow> int \<Rightarrow> int \<Rightarrow> (int \<Rightarrow> int \<Rightarrow> int) \<Rightarrow> bool" where
  "copySpec P w fld src dst res \<longleftrightarrow>
     (\<forall>r c. 0 \<le> r \<and> r \<le> src \<and> \<not> P r \<and> 0 \<le> c \<and> c < w \<longrightarrow>
        res (r + (dst - src) + countBetween P r src) c = fld r c)
     \<and> (\<forall>r. dst < r \<longrightarrow> res r = fld r)
     \<and> (\<forall>p. dst - countBetween (\<lambda>r. \<not> P r) (- 1) src < p \<and> p \<le> dst \<longrightarrow>
          (\<exists>r. 0 \<le> r \<and> r \<le> src \<and> \<not> P r \<and> p = r + (dst - src) + countBetween P r src))"

section \<open>Occupancy\<close>

text \<open>
  Claim C8. For every coordinate pair, \<open>isOccupied\<close> is true exactly when the
  coordinates lie outside the field (column below 0 or not below \<open>fieldWidth\<close>, row below
  0 or not below \<open>fieldHeight\<close>) or the cell stored there is greater than 1. Cells
  outside the logical field therefore always count as occupied.
\<close>

theorem isOccupied_iff:
  "isOccupied f px py \<longleftrightarrow>
     (px < 0 \<or> px \<ge> fieldWidth f \<or> py < 0 \<or> py \<ge> fieldHeight f) \<or> b f py px > 1"
  by (simp add: isOccupied_def)


section \<open>Failed rotation\<close>

lemma doRotate_kicks_fail:
  "doRotate_kicks env f nd tbl ks = Inr (False, f') \<Longrightarrow> f' = f"
  by (induction ks) (auto split: if_splits prod.splits sum.splits simp: Let_def)

text \<open>
  Claim C10. For every game state and every rotation direction among clockwise,
  anticlockwise and half turn: when \<open>doRotate\<close> returns false (no entry of the kick table
  fits), the game it leaves behind is the game it was given; in particular the piece's
  \<open>x\<close>, \<open>y\<close> and \<open>theta\<close> and the field \<open>b\<close> are unchanged.
\<close>

theorem doRotate_failure_no_effect:
  assumes "direction = FSROT_CLOCKWISE \<or> direction = FSROT_ANTICLOCKWISE
             \<or> direction = FSROT_HALFTURN"
    and "doRotate env f direction = Inr (False, f')"
  shows "f' = f \<and> x f' = x f \<and> y f' = y f \<and> theta f' = theta f \<and> b f' = b f"
proof -
  from assms(2) have "f' = f"
    by (auto simp: doRotate_def Let_def split: if_splits dest: doRotate_kicks_fail)
  then show ?thesis by simp
qed

text \<open>
  An instance: the I piece lying on the floor in column 0 cannot turn clockwise with the
  empty kick table, since the upright piece would reach below the floor.
\<close>

theorem doRotate_failure_no_effect_witness:
  "doRotate scenarioEnv landedExample FSROT_CLOCKWISE = Inr (False, landedExample)
   \<and> x landedExample = 0 \<and> y landedExample = 18 \<and> theta landedExample = 0"
proof -
  have r: "doRotate scenarioEnv landedExample FSROT_CLOCKWISE = Inr (False, landedExample)"
    by (simp add: doRotate_def landedExample_def fsGameClear_def scenarioEnv_def
        zeroedGame_def fsNextRandomPiece_def FSROT_CLOCKWISE_def FSROT_ANTICLOCKWISE_def
        FSROT_HALFTURN_def Let_def scenarioRotationSystem_def scenarioWallkickTable_def
        isCollision_def fsPieceToBlocks_def isOccupied_def upt_rec)
  have v: "x landedExample = 0 \<and> y landedExample = 18 \<and> theta landedExample = 0"
    by (simp add: landedExample_def fsGameClear_def scenarioEnv_def zeroedGame_def
        fsNextRandomPiece_def upt_rec)
  from doRotate_failure_no_effect [OF _ r] r v show ?thesis by simp
qed

section \<open>Horizontal movement\<close>

lemma isCollision_x_update [simp]:
  "isCollision env (f\<lparr>x := a\<rparr>) px py pt = isCollision env f px py pt"
proof -
  have "anyOccupied (f\<lparr>x := a\<rparr>) blks = anyOccupied f blks" for blks
    by (induction blks) (auto simp: isOccupied_def)
  then show ?thesis
    by (simp add: isCollision_def fsPieceToBlocks_def split: sum.splits)
qed

lemma slide_x_update [simp]: "slide env (f\<lparr>x := a\<rparr>) dir n px = slide env f dir n px"
  by (induction n arbitrary: px) (auto split: sum.splits)

lemma slide_blocked:
  "isCollision env f (px + dir) (y f) (theta f) = Inr True \<Longrightarrow> slide env f dir n px = Inr px"
  by (cases n) auto

lemma slide_left_le: "slide env f (- 1) n px = Inr q \<Longrightarrow> q \<le> px"
  by (induction n arbitrary: px) (fastforce split: sum.splits if_splits)+

lemma slide_right_ge: "slide env f 1 n px = Inr q \<Longrightarrow> px \<le> q"
  by (induction n arbitrary: px) (fastforce split: sum.splits if_splits)+

text \<open>
  The leftward loop goes on counting after a collision, but the piece, the field and the
  tested cell stay the same, so every later test collides as well.
\<close>

lemma moveLeftLoop_slide:
  "distance \<le> 0 \<Longrightarrow>
   moveLeftLoop env f moved distance =
     (case slide env f (- 1) (nat (- distance)) (x f) of
        Inl e \<Rightarrow> Inl e
      | Inr px \<Rightarrow> Inr (f\<lparr>x := px\<rparr>, moved \<or> px \<noteq> x f, 0))"
proof (induction env f moved distance rule: moveLeftLoop.induct)
  case (1 env f moved distance)
  show ?case
  proof (cases "distance < 0")
    case False
    with "1.prems" have "distance = 0" by simp
    then show ?thesis by (simp add: moveLeftLoop.simps [of env f moved 0])
  next
    case True
    then obtain n where n: "nat (- distance) = Suc n" "nat (- (distance + 1)) = n"
      by (cases "nat (- distance)") auto
    from True have le: "distance + 1 \<le> 0" by simp
    show ?thesis
    proof (cases "isCollision env f (x f - 1) (y f) (theta f)")
      case (Inl e)
      with True n show ?thesis by (simp add: moveLeftLoop.simps [of env f moved distance])
    next
      case (Inr c)
      show ?thesis
      proof (cases c)
        case True
        from Inr True have blk: "isCollision env f (x f + - 1) (y f) (theta f) = Inr True" by simp
        have stay: "slide env f (- 1) k (x f) = Inr (x f)" for k
          by (rule slide_blocked [OF blk])
        have "moveLeftLoop env f moved distance = moveLeftLoop env f moved (distance + 1)"
          using \<open>distance < 0\<close> Inr True by (simp add: moveLeftLoop.simps [of env f moved distance])
        also have "\<dots> = Inr (f, moved, 0)"
          using "1.IH"(2) [OF \<open>distance < 0\<close> Inr _ le] True by (simp add: stay)
        finally show ?thesis by (simp add: stay)
      next
        case False
        have "moveLeftLoop env f moved distance = moveLeftLoop env (f\<lparr>x := x f - 1\<rparr>) True (distance + 1)"
          using \<open>distance < 0\<close> Inr False by (simp add: moveLeftLoop.simps [of env f moved distance])
        also have "\<dots> = (case slide env f (- 1) n (x f - 1) of
               Inl e \<Rightarrow> Inl e | Inr px \<Rightarrow> Inr (f\<lparr>x := px\<rparr>, True, 0))"
          using "1.IH"(1) [OF \<open>distance < 0\<close> Inr _ le] False n by (simp split: sum.splits)
        also have "\<dots> = (case slide env f (- 1) (Suc n) (x f) of
               Inl e \<Rightarrow> Inl e | Inr px \<Rightarrow> Inr (f\<lparr>x := px\<rparr>, moved \<or> px \<noteq> x f, 0))"
          using Inr False slide_left_le [of env f n "x f - 1"]
          by (auto split: sum.splits)
        finally show ?thesis using n by simp
      qed
    qed
  qed
qed

lemma moveLeftLoop_nonneg:
  "0 \<le> distance \<Longrightarrow> moveLeftLoop env f moved distance = Inr (f, moved, distance)"
  by (simp add: moveLeftLoop.simps [of env f moved distance])

lemma moveRightLoop_slide:
  "0 \<le> distance \<Longrightarrow>
   moveRightLoop env f moved distance =
     (case slide env f 1 (nat distance) (x f) of
        Inl e \<Rightarrow> Inl e
      | Inr px \<Rightarrow> Inr (f\<lparr>x := px\<rparr>, moved \<or> px \<noteq> x f, 0))"
proof (induction env f moved distance rule: moveRightLoop.induct)
  case (1 env f moved distance)
  show ?case
  proof (cases "distance > 0")
    case False
    with "1.prems" have "distance = 0" by simp
    then show ?thesis by (simp add: moveRightLoop.simps [of env f moved 0])
  next
    case True
    then obtain n where n: "nat distance = Suc n" "nat (distance - 1) = n"
      by (cases "nat distance") auto
    from True have le: "0 \<le> distance - 1" by simp
    show ?thesis
    proof (cases "isCollision env f (x f + 1) (y f) (theta f)")
      case (Inl e)
      with True n show ?thesis by (simp add: moveRightLoop.simps [of env f moved distance])
    next
      case (Inr c)
      show ?thesis
      proof (cases c)
        case True
        from Inr True have blk: "isCollision env f (x f + 1) (y f) (theta f) = Inr True" by simp
        have stay: "slide env f 1 k (x f) = Inr (x f)" for k
          by (rule slide_blocked [OF blk])
        have "moveRightLoop env f moved distance = moveRightLoop env f moved (distance - 1)"
          using \<open>distance > 0\<close> Inr True by (simp add: moveRightLoop.simps [of env f moved distance])
        also have "\<dots> = Inr (f, moved, 0)"
          using "1.IH"(2) [OF \<open>distance > 0\<close> Inr _ le] True by (simp add: stay)
        finally show ?thesis by (simp add: stay)
      next
        case False
        have "moveRightLoop env f moved distance = moveRightLoop env (f\<lparr>x := x f + 1\<rparr>) True (distance - 1)"
          using \<open>distance > 0\<close> Inr False by (simp add: moveRightLoop.simps [of env f moved distance])
        also have "\<dots> = (case slide env f 1 n (x f + 1) of
               Inl e \<Rightarrow> Inl e | Inr px \<Rightarrow> Inr (f\<lparr>x := px\<rparr>, True, 0))"
          using "1.IH"(1) [OF \<open>distance > 0\<close> Inr _ le] False n by (simp split: sum.splits)
        also have "\<dots> = (case slide env f 1 (Suc n) (x f) of
               Inl e \<Rightarrow> Inl e | Inr px \<Rightarrow> Inr (f\<lparr>x := px\<rparr>, moved \<or> px \<noteq> x f, 0))"
          using Inr False slide_right_ge [of env f n "x f + 1"]
          by (auto split: sum.splits)
        finally show ?thesis using n by simp
      qed
    qed
  qed
qed

lemma doMovement_eq_slide:
  "doMovement env i f moved =
     (case slide env f (sgn (movement i)) (nat \<bar>movement i\<bar>) (x f) of
        Inl e \<Rightarrow> Inl e
      | Inr px \<Rightarrow> Inr (f\<lparr>x := px\<rparr>, moved \<or> px \<noteq> x f))"
proof (cases "movement i < 0")
  case True
  then have s: "sgn (movement i) = - 1" "nat \<bar>movement i\<bar> = nat (- movement i)" by simp_all
  from True have "movement i \<le> 0" by simp
  from moveLeftLoop_slide [OF this, of env f moved] show ?thesis
    unfolding doMovement_def s
    by (simp add: moveRightLoop.simps [of _ _ _ 0] split: sum.splits)
next
  case False
  then have nn: "0 \<le> movement i" by simp
  then have s: "slide env f (sgn (movement i)) (nat \<bar>movement i\<bar>) (x f) = slide env f 1 (nat (movement i)) (x f)"
    by (cases "movement i = 0") simp_all
  show ?thesis
    unfolding doMovement_def s
    by (simp add: moveLeftLoop_nonneg [OF nn] moveRightLoop_slide [OF nn] split: sum.splits)
qed


text \<open>
  Claim C7. For every input snapshot with \<open>movement = n\<close>, every field and every piece
  position, the horizontal-movement step moves the piece one cell at a time in the
  direction of the sign of \<open>n\<close>; the final column is the one reached by stepping while
  the next cell is free of collision, stopping at the first colliding step, for at most
  \<open>|n|\<close> steps. The flag \<open>moved\<close> is raised exactly when the column changed. Cells beyond
  the first collision are never entered although the loops keep counting.
\<close>

theorem doMovement_slide:
  "doMovement env i f moved =
     (case slide env f (sgn (movement i)) (nat \<bar>movement i\<bar>) (x f) of
        Inl e \<Rightarrow> Inl e
      | Inr px \<Rightarrow> Inr (f\<lparr>x := px\<rparr>, moved \<or> px \<noteq> x f))"
  by (rule doMovement_eq_slide)

text \<open>
  An instance: seven steps to the left take the freshly spawned I piece from column 4 to
  the wall at column 0.
\<close>

theorem doMovement_slide_witness:
  "(case doMovement scenarioEnv \<lparr> movement = - 7, rotation = 0, inputGravity = 0, extra = 0 \<rparr>
           spawnedExample False of
      Inl e \<Rightarrow> False
    | Inr r \<Rightarrow> x (fst r) = 0 \<and> snd r)"
proof -
  have s: "slide scenarioEnv spawnedExample (- 1) 7 (x spawnedExample) = Inr 0"
    by code_simp
  have v: "x spawnedExample \<noteq> 0"
    by code_simp
  show ?thesis
    using doMovement_slide [of scenarioEnv
        "\<lparr> movement = - 7, rotation = 0, inputGravity = 0, extra = 0 \<rparr>" spawnedExample False]
      s v by simp
qed

section \<open>Gravity\<close>

lemma int_of_float_of_int [simp]: "int_of_float (of_int n) = n"
  by (simp add: int_of_float_def)

lemma int_of_float_zero [simp]: "int_of_float 0 = 0"
  by (simp add: int_of_float_def)

lemma int_of_float_nonneg: "0 \<le> r \<Longrightarrow> int_of_float r = \<lfloor>r\<rfloor>"
  by (simp add: int_of_float_def)

text \<open>
  Claim C3, as the specification words it, would read
  \<open>doPieceGravity f g = applyGravity floor f g\<close>. It fails where the accumulator becomes
  negative and fractional: with half a row of gravity per tick and an input contribution
  of \<open>-1\<close>, the spawned piece's \<open>actualY\<close> becomes \<open>-1/2\<close>; the code converts it to row 0,
  the floor is \<open>-1\<close>.
\<close>

theorem doPieceGravity_floor_counterexample:
  "actualY (doPieceGravity gravityExample (- 1)) = - 1 / 2
   \<and> y (doPieceGravity gravityExample (- 1)) = 0
   \<and> \<lfloor>actualY (doPieceGravity gravityExample (- 1))\<rfloor> = - 1
   \<and> y (applyGravity floor gravityExample (- 1)) = - 1"
  by code_simp

text \<open>
  Claim C3, amended. \<open>doPieceGravity\<close> adds \<open>msPerTick * gravity + inputGravity\<close> to
  \<open>actualY\<close>, in float arithmetic. If then \<open>actualY \<ge> hardDropY\<close>, it sets \<open>actualY\<close> and \<open>y\<close>
  to \<open>hardDropY\<close> and turns the state FALLING into LANDED (any other state is kept).
  Otherwise it resets \<open>lockTimer\<close> to 0 exactly when the lock style is STEP or MOVE and
  the integer part of \<open>actualY\<close> exceeds \<open>y\<close>, sets \<open>y\<close> to that integer part and the state
  to FALLING. The integer part is C's conversion to \<open>int\<close>, which truncates towards zero;
  whenever the new \<open>actualY\<close> is not negative it is the floor, and the claim holds as
  worded.
\<close>

theorem doPieceGravity_applyGravity:
  "doPieceGravity f g = applyGravity int_of_float f g
   \<and> (0 \<le> gravitySum f g \<longrightarrow> doPieceGravity f g = applyGravity floor f g)"
  by (simp add: doPieceGravity_def applyGravity_def gravitySum_def Let_def int_of_float_nonneg)

text \<open>
  An instance: with 10 ms per tick and gravity \<^verbatim>\<open>0.7f\<close> the accumulator of the spawned
  piece becomes exactly 7 (the exact product would stay below 7), and the piece moves to
  row 7.
\<close>

theorem doPieceGravity_applyGravity_witness:
  "0 \<le> gravitySum roundingExample 0
   \<and> doPieceGravity roundingExample 0 = applyGravity floor roundingExample 0
   \<and> actualY (doPieceGravity roundingExample 0) = 7
   \<and> y (doPieceGravity roundingExample 0) = 7"
proof -
  have h: "0 \<le> gravitySum roundingExample 0"
    by code_simp
  have v: "actualY (doPieceGravity roundingExample 0) = 7 \<and> y (doPieceGravity roundingExample 0) = 7"
    by code_simp
  from doPieceGravity_applyGravity [of roundingExample 0] h v show ?thesis by blast
qed

section \<open>The relation between \<open>y\<close> and \<open>actualY\<close> after a tick\<close>

lemma doPieceGravity_y: "y (doPieceGravity f g) = int_of_float (actualY (doPieceGravity f g))"
  by (simp add: doPieceGravity_def Let_def)

lemma doLockCheck_y:
  "doLockCheck env i f = Inr f' \<Longrightarrow> y f' = y f \<and> actualY f' = actualY f"
  by (auto simp: doLockCheck_def Let_def split: if_splits sum.splits)

lemma tickFalling_y:
  "tickFalling env i f = Inr f' \<Longrightarrow> y f' = int_of_float (actualY f')"
  by (auto simp: tickFalling_def Let_def doPieceGravity_y
      split: sum.splits prod.splits if_splits dest!: doLockCheck_y)

lemma newPiece_y:
  "newPiece env f = Inr f' \<Longrightarrow> y f' = 0 \<and> actualY f' = 0"
  by (auto simp: newPiece_def Let_def fsNextRandomPiece_def split: list.splits)

lemma updateHardDropY_y:
  "updateHardDropY env f = Inr f' \<Longrightarrow> y f' = y f \<and> actualY f' = actualY f"
  by (auto simp: updateHardDropY_def split: sum.splits)

lemma beginTick_y:
  "beginTick env i f = Inr f' \<Longrightarrow> state f' = FSS_FALLING \<or> state f' = FSS_LANDED
     \<Longrightarrow> y f' = int_of_float (actualY f')"
proof (induction env i f rule: beginTick.induct)
  case (1 env i f)
  show ?case
    using "1.prems" "1.IH"
    apply (subst (asm) beginTick.simps)
    apply (auto simp: Let_def split: if_splits sum.splits
        dest: tickFalling_y dest!: newPiece_y updateHardDropY_y)
    done
qed

text \<open>
  Claim C4, as worded (\<open>y = floor(actualY)\<close> after every tick that returns in FALLING or
  LANDED), fails for the same reason as C3: one tick on the spawned piece with half a row
  of gravity and an input contribution of \<open>-1\<close> returns in FALLING with \<open>actualY = -1/2\<close>
  and \<open>y = 0\<close>, while the floor is \<open>-1\<close>.
\<close>

theorem fsGameTick_floor_counterexample:
  "(case fsGameTick scenarioEnv gravityExample negGravityInput of
      Inl e \<Rightarrow> False
    | Inr f' \<Rightarrow>
        state f' = FSS_FALLING \<and> actualY f' = - 1 / 2 \<and> y f' = 0 \<and> \<lfloor>actualY f'\<rfloor> = - 1)"
  by code_simp

text \<open>
  Claim C4, amended. After every return of a tick in state FALLING or LANDED, \<open>y\<close> is the
  integer part of \<open>actualY\<close> (C's conversion to \<open>int\<close>, truncating towards zero), hence
  \<open>y = floor(actualY)\<close> whenever \<open>actualY\<close> is not negative. This holds from every state
  before the tick, also when a rotation in that tick committed a kicked \<open>y\<close> without
  touching \<open>actualY\<close>: gravity runs afterwards in the same tick and sets \<open>y\<close> anew.
\<close>

theorem fsGameTick_y_truncates_actualY:
  assumes "fsGameTick env f i = Inr f'"
    and "state f' = FSS_FALLING \<or> state f' = FSS_LANDED"
  shows "y f' = int_of_float (actualY f') \<and> (0 \<le> actualY f' \<longrightarrow> y f' = \<lfloor>actualY f'\<rfloor>)"
  using assms beginTick_y [of env i "f\<lparr>lastInput := i\<rparr>"]
  by (auto simp: fsGameTick_def int_of_float_nonneg split: sum.splits)

text \<open>An instance: a tick on the piece resting on the floor, with a clockwise rotation
  requested (it fails) and no other input.\<close>

theorem fsGameTick_y_truncates_actualY_witness:
  "(case fsGameTick scenarioEnv landedExample
           \<lparr> movement = 0, rotation = 1, inputGravity = 0, extra = 0 \<rparr> of
      Inl e \<Rightarrow> False
    | Inr f' \<Rightarrow> state f' = FSS_LANDED \<and> 0 \<le> actualY f' \<and> y f' = \<lfloor>actualY f'\<rfloor> \<and> y f' = 18)"
proof -
  have e: "(case fsGameTick scenarioEnv landedExample
           \<lparr> movement = 0, rotation = 1, inputGravity = 0, extra = 0 \<rparr> of
      Inl e \<Rightarrow> False | Inr f' \<Rightarrow> state f' = FSS_LANDED \<and> 0 \<le> actualY f' \<and> y f' = 18)"
    by code_simp
  then obtain f' where r: "fsGameTick scenarioEnv landedExample
           \<lparr> movement = 0, rotation = 1, inputGravity = 0, extra = 0 \<rparr> = Inr f'"
    and s: "state f' = FSS_LANDED" "0 \<le> actualY f'" "y f' = 18"
    by (cases "fsGameTick scenarioEnv landedExample
           \<lparr> movement = 0, rotation = 1, inputGravity = 0, extra = 0 \<rparr>") auto
  from fsGameTick_y_truncates_actualY [OF r] s show ?thesis by (simp add: r)
qed

section \<open>Lines cleared and the goal\<close>

lemma newPiece_goal:
  "newPiece env f = Inr f' \<Longrightarrow> linesCleared f' = linesCleared f \<and> goal f' = goal f"
  by (auto simp: newPiece_def Let_def fsNextRandomPiece_def split: list.splits)

lemma updateHardDropY_goal:
  "updateHardDropY env f = Inr f' \<Longrightarrow> linesCleared f' = linesCleared f \<and> goal f' = goal f"
  by (auto simp: updateHardDropY_def split: sum.splits)

lemma doHold_goal:
  "doHold env i f = Inr f' \<Longrightarrow> linesCleared f' = linesCleared f \<and> goal f' = goal f"
  by (auto simp: doHold_def Let_def split: if_splits sum.splits dest!: newPiece_goal updateHardDropY_goal)

lemma doRotate_kicks_goal:
  "doRotate_kicks env f nd tbl ks = Inr (m, f') \<Longrightarrow> linesCleared f' = linesCleared f \<and> goal f' = goal f"
  by (induction ks) (auto split: if_splits prod.splits sum.splits simp: Let_def)

lemma doRotate_goal:
  "doRotate env f d = Inr (m, f') \<Longrightarrow> linesCleared f' = linesCleared f \<and> goal f' = goal f"
  by (auto simp: doRotate_def Let_def split: if_splits dest: doRotate_kicks_goal)

lemma doMovement_goal:
  "doMovement env i f m = Inr (f', m') \<Longrightarrow> linesCleared f' = linesCleared f \<and> goal f' = goal f"
  by (auto simp: doMovement_eq_slide split: sum.splits)

lemma doLockCheck_goal:
  "doLockCheck env i f = Inr f' \<Longrightarrow> linesCleared f' = linesCleared f \<and> goal f' = goal f"
  by (auto simp: doLockCheck_def Let_def split: if_splits sum.splits)

lemma doPieceGravity_goal:
  "linesCleared (doPieceGravity f g) = linesCleared f \<and> goal (doPieceGravity f g) = goal f"
  by (simp add: doPieceGravity_def Let_def)

lemma doFinesseCounters_goal:
  "linesCleared (doFinesseCounters env i f) = linesCleared f \<and> goal (doFinesseCounters env i f) = goal f"
  by (simp add: doFinesseCounters_def Let_def)

lemma tickFalling_goal:
  "tickFalling env i f = Inr f' \<Longrightarrow> linesCleared f' = linesCleared f \<and> goal f' = goal f"
  by (auto simp: tickFalling_def Let_def doPieceGravity_goal doFinesseCounters_goal
      split: sum.splits prod.splits if_splits
      dest!: doLockCheck_goal doHold_goal doRotate_goal doMovement_goal updateHardDropY_goal)


lemma tickLines_goal_le:
  "tickLines env f = Inr f' \<Longrightarrow> state f' = FSS_GAMEOVER \<or> linesCleared f' < goal f'"
  by (auto simp: tickLines_def Let_def split: sum.splits if_splits)

lemma lockPiece_goal:
  "lockPiece env f = Inr f' \<Longrightarrow> linesCleared f' = linesCleared f \<and> goal f' = goal f"
  by (auto simp: lockPiece_def Let_def split: if_splits sum.splits)

lemma clearLines_goal:
  "linesCleared (snd (clearLines f)) = linesCleared f \<and> goal (snd (clearLines f)) = goal f
   \<and> state (snd (clearLines f)) = state f"
  by (simp add: clearLines_def Let_def split: prod.splits)

lemma beginTick_goalInv:
  "beginTick env i f = Inr f' \<Longrightarrow> goalInv f \<Longrightarrow> goalInv f'"
proof (induction env i f rule: beginTick.induct)
  case (1 env i f)
  show ?case
    using "1.prems" "1.IH"
    apply (subst (asm) beginTick.simps)
    apply (auto simp: Let_def goalInv_def clearLines_goal split: if_splits sum.splits
        dest!: tickFalling_goal newPiece_goal updateHardDropY_goal tickLines_goal_le)
    done
qed





lemma beginTick_goal_pres:
  "beginTick env i f = Inr f' \<Longrightarrow> state f \<noteq> FSS_LINES
     \<Longrightarrow> linesCleared f' = linesCleared f \<and> goal f' = goal f"
proof (induction env i f rule: beginTick.induct)
  case (1 env i f)
  show ?case
    using "1.prems" "1.IH"
    apply (subst (asm) beginTick.simps)
    apply (auto simp: Let_def split: if_splits sum.splits
        dest!: tickFalling_goal newPiece_goal updateHardDropY_goal)
    done
qed







lemma beginTick_LINES_goal:
  assumes "state f = FSS_LINES" and "beginTick env i f = Inr f'"
    and "goal f' \<le> linesCleared f'"
  shows "state f' = FSS_GAMEOVER"
proof -
  from assms(1,2) obtain f4 where l: "tickLines env f = Inr f4" and r: "beginTick env i f4 = Inr f'"
    by (subst (asm) beginTick.simps) (auto split: sum.splits)
  show ?thesis
  proof (cases "state f4 = FSS_GAMEOVER")
    case True
    with r show ?thesis by (subst (asm) beginTick.simps) auto
  next
    case False
    with tickLines_state [OF l] tickLines_goal_le [OF l]
    have "state f4 \<noteq> FSS_LINES" "linesCleared f4 < goal f4" by auto
    with beginTick_goal_pres [OF r] assms(3) show ?thesis by simp
  qed
qed

lemma fsGameTick_goalInv:
  "fsGameTick env f i = Inr f' \<Longrightarrow> goalInv f \<Longrightarrow> goalInv f'"
  using beginTick_goalInv [of env i "f\<lparr>lastInput := i\<rparr>"]
  by (auto simp: fsGameTick_def goalInv_def split: sum.splits)

lemma fsGameTicks_goalInv:
  "fsGameTicks env f inputs = Inr f' \<Longrightarrow> goalInv f \<Longrightarrow> goalInv f'"
  by (induction inputs arbitrary: f) (auto split: sum.splits dest: fsGameTick_goalInv)





lemma fillPreview_goal:
  "linesCleared (fillPreview env f ks) = linesCleared f \<and> goal (fillPreview env f ks) = goal f"
  by (induction ks arbitrary: f) (auto simp: fsNextRandomPiece_def)





lemma fsGameClear_goal:
  "linesCleared (fsGameClear env) = 0 \<and> goal (fsGameClear env) = FSD_GOAL env"
  unfolding fsGameClear_def Let_def
  by (simp add: fsNextRandomPiece_def fillPreview_goal zeroedGame_def)



text \<open>
  Claim C5. At every return of a tick before the game is over, \<open>linesCleared \<le> goal\<close>:
  this holds after a reset (with a default goal that is not negative) and is kept by every
  run of ticks that has not reached GAMEOVER. And a tick that processes the state LINES
  and brings \<open>linesCleared\<close> to the goal or beyond returns in state GAMEOVER, within that
  same call.
\<close>

theorem linesCleared_le_goal_until_gameover:
  "(0 \<le> FSD_GOAL env \<longrightarrow> linesCleared (fsGameClear env) \<le> goal (fsGameClear env))
   \<and> (linesCleared f \<le> goal f \<longrightarrow> fsGameTicks env f inputs = Inr f' \<longrightarrow>
        state f' \<noteq> FSS_GAMEOVER \<longrightarrow> linesCleared f' \<le> goal f')
   \<and> (state g = FSS_LINES \<longrightarrow> fsGameTick env g i = Inr g' \<longrightarrow>
        goal g' \<le> linesCleared g' \<longrightarrow> state g' = FSS_GAMEOVER)"
proof (intro conjI impI)
  assume "0 \<le> FSD_GOAL env"
  then show "linesCleared (fsGameClear env) \<le> goal (fsGameClear env)"
    by (simp add: fsGameClear_goal)
next
  assume "linesCleared f \<le> goal f" and "fsGameTicks env f inputs = Inr f'"
    and "state f' \<noteq> FSS_GAMEOVER"
  then show "linesCleared f' \<le> goal f'"
    using fsGameTicks_goalInv [of env f inputs f'] by (simp add: goalInv_def)
next
  assume l: "state g = FSS_LINES" and t: "fsGameTick env g i = Inr g'"
    and c: "goal g' \<le> linesCleared g'"
  from t obtain g1 where bt: "beginTick env i (g\<lparr>lastInput := i\<rparr>) = Inr g1"
    and g': "g' = g1\<lparr>totalTicks := totalTicks g1 + 1\<rparr>"
    by (auto simp: fsGameTick_def split: sum.splits)
  from l have "state (g\<lparr>lastInput := i\<rparr>) = FSS_LINES" by simp
  from beginTick_LINES_goal [OF this bt] c show "state g' = FSS_GAMEOVER" by (simp add: g')
qed

text \<open>
  Instances: three ticks after the reset of the scenario (spawn, hard drop, lock) return
  in ARE with no line cleared of the 40 of the goal; and the tick that locks the last
  line of a goal of one line returns in GAMEOVER.
\<close>

theorem linesCleared_le_goal_until_gameover_witness:
  "(case fsGameTicks scenarioEnv (fsGameClear scenarioEnv)
           [idleInput, hardDropGravityInput, idleInput] of
      Inl e \<Rightarrow> False
    | Inr f' \<Rightarrow> state f' = FSS_ARE \<and> linesCleared f' \<le> goal f')
   \<and> (case fsGameTick scenarioEnv lastLineExample idleInput of
        Inl e \<Rightarrow> False
      | Inr g' \<Rightarrow> goal g' \<le> linesCleared g' \<and> state g' = FSS_GAMEOVER)"
proof -
  note inst = linesCleared_le_goal_until_gameover
    [where env = scenarioEnv and f = "fsGameClear scenarioEnv"
       and inputs = "[idleInput, hardDropGravityInput, idleInput]"
       and g = lastLineExample and i = idleInput]
  have d: "0 \<le> FSD_GOAL scenarioEnv" by (simp add: scenarioEnv_def)
  have a: "(case fsGameTicks scenarioEnv (fsGameClear scenarioEnv)
           [idleInput, hardDropGravityInput, idleInput] of
      Inl e \<Rightarrow> False | Inr f' \<Rightarrow> state f' = FSS_ARE)"
    by code_simp
  then obtain f' where r: "fsGameTicks scenarioEnv (fsGameClear scenarioEnv)
           [idleInput, hardDropGravityInput, idleInput] = Inr f'"
    and s: "state f' = FSS_ARE"
    by (cases "fsGameTicks scenarioEnv (fsGameClear scenarioEnv)
           [idleInput, hardDropGravityInput, idleInput]") auto
  have c: "(case fsGameTick scenarioEnv lastLineExample idleInput of
        Inl e \<Rightarrow> False | Inr g' \<Rightarrow> goal g' \<le> linesCleared g')"
    by code_simp
  then obtain g' where t: "fsGameTick scenarioEnv lastLineExample idleInput = Inr g'"
    and u: "goal g' \<le> linesCleared g'"
    by (cases "fsGameTick scenarioEnv lastLineExample idleInput") auto
  have l: "state lastLineExample = FSS_LINES" by (simp add: lastLineExample_def)
  from inst [of f' g'] d r s t u l show ?thesis by simp
qed

section \<open>Entry delay\<close>

lemma beginTick_ARE_wait:
  "state f = FSS_ARE \<Longrightarrow> TICKS f (areDelay f) = Inr t \<Longrightarrow> areTimer f \<le> t \<Longrightarrow>
   beginTick env i f = Inr (f\<lparr>areTimer := areTimer f + 1\<rparr>)"
  by (subst beginTick.simps) (simp add: Let_def)

lemma beginTick_ARE_spawn:
  "state f = FSS_ARE \<Longrightarrow> TICKS f (areDelay f) = Inr t \<Longrightarrow> t < areTimer f \<Longrightarrow>
   beginTick env i f = beginTick env i (f\<lparr>areTimer := 0, state := FSS_NEW_PIECE\<rparr>)"
  by (subst beginTick.simps) (simp add: Let_def)

lemma TICKS_lastInput [simp]: "TICKS (f\<lparr>lastInput := i\<rparr>) ms = TICKS f ms"
  by (simp add: TICKS_def)

lemma fsGameTick_ARE_wait:
  "state f = FSS_ARE \<Longrightarrow> TICKS f (areDelay f) = Inr t \<Longrightarrow> areTimer f \<le> t \<Longrightarrow>
   fsGameTick env f i =
     Inr (f\<lparr>lastInput := i, areTimer := areTimer f + 1, totalTicks := totalTicks f + 1\<rparr>)"
  by (simp add: fsGameTick_def beginTick_ARE_wait [where t = t])

lemma fsGameTick_ARE_spawn:
  "state f = FSS_ARE \<Longrightarrow> TICKS f (areDelay f) = Inr t \<Longrightarrow> t < areTimer f \<Longrightarrow>
   fsGameTick env f i = fsGameTick env (f\<lparr>areTimer := 0, state := FSS_NEW_PIECE\<rparr>) i"
proof -
  assume a: "state f = FSS_ARE" "TICKS f (areDelay f) = Inr t" "t < areTimer f"
  have e: "f\<lparr>lastInput := i, areTimer := 0, state := FSS_NEW_PIECE\<rparr>
        = f\<lparr>areTimer := 0, state := FSS_NEW_PIECE, lastInput := i\<rparr>"
    by (cases f) simp
  from a show ?thesis
    by (simp add: fsGameTick_def beginTick_ARE_spawn [where t = t] e)
qed

lemma beginTick_GAMEOVER:
  "state f = FSS_GAMEOVER \<Longrightarrow> beginTick env i f = Inr f"
  by (subst beginTick.simps) simp

lemma newPiece_piece:
  "newPiece env f = Inr f' \<Longrightarrow> nextPiece f = p # rest \<Longrightarrow>
     piece f' = p \<and> areTimer f' = areTimer f \<and> x f' = c_div (fieldWidth f) 2 - 1"
  by (auto simp: newPiece_def Let_def fsNextRandomPiece_def split: list.splits)

lemma updateHardDropY_piece:
  "updateHardDropY env f = Inr f' \<Longrightarrow> piece f' = piece f \<and> areTimer f' = areTimer f \<and> x f' = x f"
  by (auto simp: updateHardDropY_def split: sum.splits)

lemma fsGameTick_NEW_PIECE:
  assumes "state f = FSS_NEW_PIECE" and "fsGameTick env f i = Inr f'" and "nextPiece f = p # rest"
  shows "(state f' = FSS_FALLING \<or> state f' = FSS_GAMEOVER) \<and> piece f' = p
         \<and> areTimer f' = areTimer f \<and> x f' = c_div (fieldWidth f) 2 - 1 \<and> y f' = 0"
proof -
  from assms(2) obtain g where bt: "beginTick env i (f\<lparr>lastInput := i\<rparr>) = Inr g"
    and f': "f' = g\<lparr>totalTicks := totalTicks g + 1\<rparr>"
    by (auto simp: fsGameTick_def split: sum.splits)
  from bt assms(1) obtain f1 c where np: "newPiece env (f\<lparr>lastInput := i\<rparr>) = Inr f1"
    and col: "isCollision env f1 (x f1) (y f1) (theta f1) = Inr c"
    by (subst (asm) beginTick.simps) (auto split: sum.splits)
  from newPiece_piece [OF np, of p rest] newPiece_y [OF np] assms(3)
  have f1: "piece f1 = p" "areTimer f1 = areTimer f" "x f1 = c_div (fieldWidth f) 2 - 1" "y f1 = 0"
    by simp_all
  show ?thesis
  proof (cases c)
    case True
    with bt assms(1) np col have "beginTick env i (f1\<lparr>state := FSS_GAMEOVER\<rparr>) = Inr g"
      by (subst (asm) beginTick.simps) simp
    then have "g = f1\<lparr>state := FSS_GAMEOVER\<rparr>"
      by (simp add: beginTick_GAMEOVER)
    with f1 f' show ?thesis by simp
  next
    case False
    with bt assms(1) np col obtain f2 where u: "updateHardDropY env f1 = Inr f2"
      and g: "g = f2\<lparr>state := FSS_FALLING\<rparr>"
      by (subst (asm) beginTick.simps) (auto split: sum.splits)
    from updateHardDropY_piece [OF u] updateHardDropY_y [OF u] f1 g f' show ?thesis by simp
  qed
qed


lemma TICKS_ARE_step [simp]:
  "TICKS (f\<lparr>lastInput := i, areTimer := a, totalTicks := n\<rparr>) ms = TICKS f ms"
  by (simp add: TICKS_def)

lemma fsGameTicks_ARE_wait:
  "state f = FSS_ARE \<Longrightarrow> TICKS f (areDelay f) = Inr t \<Longrightarrow>
   areTimer f + int (length inputs) \<le> t + 1 \<Longrightarrow>
   \<exists>f1. fsGameTicks env f inputs = Inr f1 \<and> state f1 = FSS_ARE
        \<and> areTimer f1 = areTimer f + int (length inputs)
        \<and> TICKS f1 (areDelay f1) = Inr t \<and> nextPiece f1 = nextPiece f"
proof (induction inputs arbitrary: f)
  case Nil
  then show ?case by simp
next
  case (Cons i inputs)
  let ?f' = "f\<lparr>lastInput := i, areTimer := areTimer f + 1, totalTicks := totalTicks f + 1\<rparr>"
  from Cons.prems have le: "areTimer f \<le> t" by simp
  have step: "fsGameTick env f i = Inr ?f'"
    by (rule fsGameTick_ARE_wait [OF Cons.prems(1,2) le])
  have "state ?f' = FSS_ARE" using Cons.prems(1) by simp
  moreover have "TICKS ?f' (areDelay ?f') = Inr t" using Cons.prems(2) by simp
  moreover have "areTimer ?f' + int (length inputs) \<le> t + 1" using Cons.prems(3) by simp
  ultimately obtain f1 where "fsGameTicks env ?f' inputs = Inr f1" "state f1 = FSS_ARE"
    "areTimer f1 = areTimer ?f' + int (length inputs)" "TICKS f1 (areDelay f1) = Inr t"
    "nextPiece f1 = nextPiece ?f'"
    using Cons.IH [of ?f'] by blast
  then show ?case by (auto simp: step)
qed

text \<open>
  Claim C6, as worded, makes the tick on which the incremented \<open>areTimer\<close> exceeds
  \<open>ticks(areDelay)\<close> the one that spawns. With an entry delay of 0 ticks and the timer at
  0, the incremented timer is 1 and exceeds 0, yet the tick returns in ARE and no piece
  is spawned: the code compares the value the timer had before the increment.
\<close>

theorem are_delay_ticks_counterexample:
  "(case fsGameTick scenarioEnv areExample idleInput of
      Inl e \<Rightarrow> False
    | Inr f' \<Rightarrow> areTimer f' = 1 \<and> TICKS f' (areDelay f') = Inr 0
               \<and> state f' = FSS_ARE \<and> piece f' = FS_NONE)"
  by code_simp

text \<open>
  Claim C6, amended. In state ARE a tick compares \<open>areTimer\<close>, as it is before the tick,
  with \<open>t = ticks(areDelay)\<close>. If the timer does not exceed \<open>t\<close>, the tick increments it
  and returns in ARE. If it is strictly greater than \<open>t\<close>, the timer is reset to 0, the
  state becomes NEW_PIECE and the head of the preview queue is spawned within the same
  call, which returns in FALLING (or in GAMEOVER when the spawn position is blocked).
  Consequently, from a timer value \<open>a\<close> the next \<open>t + 1 - a\<close> ticks return in ARE and the
  tick after them spawns: counted from the timer value 0 with which the LINES branch
  enters ARE, \<open>t + 1\<close> ticks return in ARE before the spawning tick.
\<close>

theorem are_delay_ticks:
  assumes "state f = FSS_ARE" and "TICKS f (areDelay f) = Inr t"
  shows "(areTimer f \<le> t \<longrightarrow>
            fsGameTick env f i =
              Inr (f\<lparr>lastInput := i, areTimer := areTimer f + 1, totalTicks := totalTicks f + 1\<rparr>))
    \<and> (t < areTimer f \<longrightarrow>
          fsGameTick env f i = fsGameTick env (f\<lparr>areTimer := 0, state := FSS_NEW_PIECE\<rparr>) i
          \<and> (\<forall>f' p rest. fsGameTick env f i = Inr f' \<longrightarrow> nextPiece f = p # rest \<longrightarrow>
                areTimer f' = 0 \<and> piece f' = p
                \<and> (state f' = FSS_FALLING \<or> state f' = FSS_GAMEOVER)))
    \<and> (areTimer f + int (length inputs) \<le> t + 1 \<longrightarrow>
          (\<exists>f1. fsGameTicks env f inputs = Inr f1 \<and> state f1 = FSS_ARE
             \<and> areTimer f1 = areTimer f + int (length inputs)
             \<and> (areTimer f1 = t + 1 \<longrightarrow>
                  fsGameTick env f1 i
                    = fsGameTick env (f1\<lparr>areTimer := 0, state := FSS_NEW_PIECE\<rparr>) i)))"
proof -
  have c1: "areTimer f \<le> t \<longrightarrow>
            fsGameTick env f i =
              Inr (f\<lparr>lastInput := i, areTimer := areTimer f + 1, totalTicks := totalTicks f + 1\<rparr>)"
    using fsGameTick_ARE_wait [OF assms] by blast
  have c2: "fsGameTick env f i = fsGameTick env (f\<lparr>areTimer := 0, state := FSS_NEW_PIECE\<rparr>) i"
    if "t < areTimer f"
    using fsGameTick_ARE_spawn [OF assms that] .
  have c3: "areTimer f' = 0 \<and> piece f' = p \<and> (state f' = FSS_FALLING \<or> state f' = FSS_GAMEOVER)"
    if gt: "t < areTimer f" and r: "fsGameTick env f i = Inr f'" and q: "nextPiece f = p # rest"
    for f' p rest
  proof -
    let ?g = "f\<lparr>areTimer := 0, state := FSS_NEW_PIECE\<rparr>"
    from r c2 [OF gt] have "fsGameTick env ?g i = Inr f'" by simp
    from fsGameTick_NEW_PIECE [OF _ this, of p rest] q show ?thesis by simp
  qed
  have c4: "\<exists>f1. fsGameTicks env f inputs = Inr f1 \<and> state f1 = FSS_ARE
             \<and> areTimer f1 = areTimer f + int (length inputs)
             \<and> (areTimer f1 = t + 1 \<longrightarrow>
                  fsGameTick env f1 i
                    = fsGameTick env (f1\<lparr>areTimer := 0, state := FSS_NEW_PIECE\<rparr>) i)"
    if le: "areTimer f + int (length inputs) \<le> t + 1"
  proof -
    from fsGameTicks_ARE_wait [OF assms le, of env] obtain f1 where
      f1: "fsGameTicks env f inputs = Inr f1" "state f1 = FSS_ARE"
        "areTimer f1 = areTimer f + int (length inputs)" "TICKS f1 (areDelay f1) = Inr t"
      by blast
    have "areTimer f1 = t + 1 \<longrightarrow>
        fsGameTick env f1 i = fsGameTick env (f1\<lparr>areTimer := 0, state := FSS_NEW_PIECE\<rparr>) i"
      using fsGameTick_ARE_spawn [OF f1(2) f1(4), of env i] by simp
    with f1 show ?thesis by blast
  qed
  from c1 c2 c3 c4 show ?thesis by blast
qed

text \<open>
  Instances, with an entry delay of 0 ticks: from the timer value 0 the tick returns in
  ARE with the timer at 1; from the timer value 1 the tick spawns the I piece.
\<close>

theorem are_delay_ticks_witness:
  "(case fsGameTick scenarioEnv areExample idleInput of
      Inl e \<Rightarrow> False
    | Inr f' \<Rightarrow> state f' = FSS_ARE \<and> areTimer f' = 1)
   \<and> (case fsGameTick scenarioEnv (areExample\<lparr>areTimer := 1\<rparr>) idleInput of
        Inl e \<Rightarrow> False
      | Inr f' \<Rightarrow> state f' = FSS_FALLING \<and> piece f' = FS_I \<and> areTimer f' = 0)"
proof -
  have s0: "state areExample = FSS_ARE" "state (areExample\<lparr>areTimer := 1\<rparr>) = FSS_ARE"
    by (simp_all add: areExample_def)
  have t0: "TICKS areExample (areDelay areExample) = Inr 0"
    "TICKS (areExample\<lparr>areTimer := 1\<rparr>) (areDelay (areExample\<lparr>areTimer := 1\<rparr>)) = Inr 0"
    by code_simp+
  have a0: "areTimer areExample \<le> 0" "0 < areTimer (areExample\<lparr>areTimer := 1\<rparr>)"
    by code_simp+
  have n: "nextPiece (areExample\<lparr>areTimer := 1\<rparr>) = FS_I # [FS_I, FS_I, FS_I, FS_I]"
    by code_simp
  have e: "(case fsGameTick scenarioEnv (areExample\<lparr>areTimer := 1\<rparr>) idleInput of
        Inl e \<Rightarrow> False | Inr f' \<Rightarrow> state f' = FSS_FALLING)"
    by code_simp
  then obtain f' where r: "fsGameTick scenarioEnv (areExample\<lparr>areTimer := 1\<rparr>) idleInput = Inr f'"
    and s: "state f' = FSS_FALLING"
    by (cases "fsGameTick scenarioEnv (areExample\<lparr>areTimer := 1\<rparr>) idleInput") auto
  from are_delay_ticks [OF s0(1) t0(1), of scenarioEnv idleInput "[]"] a0(1)
  have 1: "fsGameTick scenarioEnv areExample idleInput =
      Inr (areExample\<lparr>lastInput := idleInput, areTimer := areTimer areExample + 1,
                     totalTicks := totalTicks areExample + 1\<rparr>)"
    by blast
  from are_delay_ticks [OF s0(2) t0(2), of scenarioEnv idleInput "[]"] a0(2) r n
  have 2: "areTimer f' = 0 \<and> piece f' = FS_I" by blast
  have 3: "areTimer areExample = 0" by code_simp
  from 1 2 3 s0 r s show ?thesis by simp
qed


section \<open>Command-line arguments\<close>

text \<open>
  Claim C9 describes what the comment in the source intends (a non-option argument is a
  replay file, the last one wins; an unknown flag prints an error and exits with code
  1), but the test \<^verbatim>\<open>!strncmp("-", opt, 1) && !strncmp("--", opt, 2)\<close> holds exactly for
  arguments that begin with two dashes. An argument without a leading dash therefore
  ends in \<^verbatim>\<open>exit(1)\<close>, and an unknown flag with two dashes is stored as the replay name.
\<close>

theorem fsParseOptString_nonflag_exits:
  "fsParseOptString [''FastStack'', ''game.replay''] = Exited 1 (UnknownArgument ''game.replay'')
   \<and> fsParseOptString [''FastStack'', ''--bogus'']
       = Returned \<lparr> verbosity = 0, no_ini = False, replay = Some ''--bogus'' \<rparr>"
  by (simp add: fsParseOptString_def strncmp_eq_def)

section \<open>The hard-drop scenario\<close>

text \<open>
  Claim C1, as worded, expects one tick with the hard-drop bit after a reset to place and
  lock the I piece in row 19. In the code the reset leaves the state NEW_PIECE, and the
  NEW_PIECE branch ends with \<^verbatim>\<open>break\<close>: the tick with the hard-drop bit only spawns
  the piece. After that tick nothing is placed, the state is FALLING and the cells of
  row 19 in columns 3 to 6 are empty.
\<close>

theorem hard_drop_scenario_counterexample:
  "(case fsGameTick scenarioEnv (fsGameClear scenarioEnv) hardDropInput of
      Inl e \<Rightarrow> False
    | Inr f1 \<Rightarrow>
        state f1 = FSS_FALLING \<and> piece f1 = FS_I \<and> blocksPlaced f1 = 0
        \<and> map (b f1 19) [3, 4, 5, 6] = [0, 0, 0, 0])"
  by code_simp

text \<open>
  Claim C1, amended. After a reset on the empty 10 by 20 field with gravity 0 and the I
  piece at the head of the preview queue, three ticks are needed. The first tick, with
  the hard-drop bit set and all other inputs zero, only spawns the piece: it returns in
  FALLING with the piece at column \<open>fieldWidth / 2 - 1 = 4\<close>, row 0, hard-drop row 18 and
  nothing placed. The second tick, with the hard-drop bit set, an input gravity of 20
  and all other inputs zero, puts the piece at \<open>y = hardDropY = 18\<close> and returns in LINES,
  still with nothing placed. The third tick, with all inputs zero, locks the piece and
  clears lines within that one call: it leaves \<open>blocksPlaced = 1\<close>, \<open>linesCleared = 0\<close>,
  row 19 with exactly the four cells of columns 4 to 7 filled, and the state ARE.
\<close>

theorem hard_drop_scenario:
  "(case fsGameTick scenarioEnv (fsGameClear scenarioEnv) hardDropInput of
      Inl e \<Rightarrow> False
    | Inr f1 \<Rightarrow>
        state f1 = FSS_FALLING \<and> piece f1 = FS_I \<and> x f1 = 4 \<and> y f1 = 0
        \<and> hardDropY f1 = 18 \<and> blocksPlaced f1 = 0
        \<and> (case fsGameTick scenarioEnv f1 hardDropGravityInput of
              Inl e \<Rightarrow> False
            | Inr f2 \<Rightarrow>
                state f2 = FSS_LINES \<and> y f2 = 18 \<and> blocksPlaced f2 = 0
                \<and> (case fsGameTick scenarioEnv f2 idleInput of
                      Inl e \<Rightarrow> False
                    | Inr f3 \<Rightarrow>
                        blocksPlaced f3 = 1 \<and> linesCleared f3 = 0
                        \<and> map (b f3 19) [0, 1, 2, 3, 4, 5, 6, 7, 8, 9]
                            = [0, 0, 0, 0, 16, 16, 16, 16, 0, 0]
                        \<and> state f3 = FSS_ARE)))"
  by code_simp

section \<open>Correctness of line clearing\<close>

lemma countBetween_empty: "hi \<le> lo \<Longrightarrow> countBetween P lo hi = 0"
proof -
  assume "hi \<le> lo"
  then have "{r. lo < r \<and> r \<le> hi \<and> P r} = {}" by auto
  then show ?thesis unfolding countBetween_def by (simp only: card.empty of_nat_0)
qed

lemma countBetween_step:
  assumes "lo < hi"
  shows "countBetween P lo hi = countBetween P lo (hi - 1) + (if P hi then 1 else 0)"
proof -
  have fin: "finite {r. lo < r \<and> r \<le> hi - 1 \<and> P r}"
    by (rule finite_subset [of _ "{lo..hi}"]) auto
  show ?thesis
  proof (cases "P hi")
    case True
    with assms have "{r. lo < r \<and> r \<le> hi \<and> P r} = insert hi {r. lo < r \<and> r \<le> hi - 1 \<and> P r}"
      by auto
    with fin True show ?thesis by (simp add: countBetween_def)
  next
    case False
    then have "{r. lo < r \<and> r \<le> hi \<and> P r} = {r. lo < r \<and> r \<le> hi - 1 \<and> P r}"
      by (auto simp: order_le_less)
    with False show ?thesis by (simp add: countBetween_def)
  qed
qed

lemma countBetween_nonneg [simp]: "0 \<le> countBetween P lo hi"
  by (simp add: countBetween_def)

lemma countBetween_compl:
  "lo \<le> hi \<Longrightarrow> countBetween P lo hi + countBetween (\<lambda>r. \<not> P r) lo hi = hi - lo"
proof (induction "nat (hi - lo)" arbitrary: hi)
  case 0
  then show ?case by (simp add: countBetween_empty)
next
  case (Suc n)
  then have "lo < hi" "n = nat (hi - 1 - lo)" "lo \<le> hi - 1" by auto
  with Suc.hyps(1) [of "hi - 1"] show ?case
    by (simp add: countBetween_step [of lo hi])
qed

lemma countBetween_le: "lo \<le> hi \<Longrightarrow> countBetween P lo hi \<le> hi - lo"
  using countBetween_compl [of lo hi P] countBetween_nonneg [of "\<lambda>r. \<not> P r" lo hi] by linarith

lemma countBetween_split:
  "lo \<le> mid \<Longrightarrow> mid \<le> hi \<Longrightarrow>
   countBetween P lo hi = countBetween P lo mid + countBetween P mid hi"
proof (induction "nat (hi - mid)" arbitrary: hi)
  case 0
  then show ?case by (simp add: countBetween_empty)
next
  case (Suc n)
  then have "mid < hi" "lo < hi" "n = nat (hi - 1 - mid)" "mid \<le> hi - 1" by auto
  with Suc.hyps(1) [of "hi - 1"] Suc.prems show ?case
    by (simp add: countBetween_step [of lo hi] countBetween_step [of mid hi])
qed

lemma countBetween_cong:
  "(\<And>r. lo < r \<Longrightarrow> r \<le> hi \<Longrightarrow> P r = Q r) \<Longrightarrow> countBetween P lo hi = countBetween Q lo hi"
proof -
  assume "\<And>r. lo < r \<Longrightarrow> r \<le> hi \<Longrightarrow> P r = Q r"
  then have "{r. lo < r \<and> r \<le> hi \<and> P r} = {r. lo < r \<and> r \<le> hi \<and> Q r}" by auto
  then show ?thesis by (simp add: countBetween_def)
qed

lemma rowFilled_iff:
  "rowFilled f row col \<longleftrightarrow> (\<forall>c. col \<le> c \<and> c < fieldWidth f \<longrightarrow> b f row c \<noteq> 0)"
proof (induction f row col rule: rowFilled.induct)
  case (1 f row col)
  show ?case
  proof (cases "col < fieldWidth f")
    case False
    then show ?thesis by (simp add: rowFilled.simps [of f row col])
  next
    case True
    show ?thesis
    proof (cases "b f row col = 0")
      case True
      with \<open>col < fieldWidth f\<close> show ?thesis
        by (auto simp: rowFilled.simps [of f row col])
    next
      case False
      have "(\<forall>c. col \<le> c \<and> c < fieldWidth f \<longrightarrow> b f row c \<noteq> 0)
          \<longleftrightarrow> (\<forall>c. col + 1 \<le> c \<and> c < fieldWidth f \<longrightarrow> b f row c \<noteq> 0)"
        using False by (metis add1_zle_eq order_le_less)
      with "1.IH" [OF True False] True False show ?thesis
        by (simp add: rowFilled.simps [of f row col])
    qed
  qed
qed

lemma rowFilled_fullRow: "rowFilled f row 0 \<longleftrightarrow> fullRow f row"
  by (simp add: rowFilled_iff fullRow_def)

lemma countBetween_first:
  assumes "lo < hi"
  shows "countBetween P lo hi = (if P (lo + 1) then 1 else 0) + countBetween P (lo + 1) hi"
proof -
  from assms have "countBetween P lo hi = countBetween P lo (lo + 1) + countBetween P (lo + 1) hi"
    by (intro countBetween_split) auto
  moreover have "countBetween P lo (lo + 1) = (if P (lo + 1) then 1 else 0)"
    using countBetween_step [of lo "lo + 1" P] by (simp add: countBetween_empty)
  ultimately show ?thesis by simp
qed

lemma scanLines_count:
  "snd (scanLines f row w c) = c + countBetween (fullRow f) (row - 1) (fieldHeight f - 1)"
proof (induction f row w c rule: scanLines.induct)
  case (1 f row w c)
  show ?case
  proof (cases "row < fieldHeight f")
    case False
    then show ?thesis
      by (simp add: scanLines.simps [of f row w c] countBetween_empty)
  next
    case True
    then have lt: "row - 1 < fieldHeight f - 1" by simp
    show ?thesis
    proof (cases "rowFilled f row 0")
      case True
      with "1.IH"(1) [OF \<open>row < fieldHeight f\<close> True] \<open>row < fieldHeight f\<close> show ?thesis
        by (simp add: scanLines.simps [of f row w c] countBetween_first [OF lt] rowFilled_fullRow)
    next
      case False
      with "1.IH"(2) [OF \<open>row < fieldHeight f\<close> False] \<open>row < fieldHeight f\<close> show ?thesis
        by (simp add: scanLines.simps [of f row w c] countBetween_first [OF lt] rowFilled_fullRow)
    qed
  qed
qed

lemma bit_shl1: "bit (push_bit 1 (a :: 32 word)) k \<longleftrightarrow> 1 \<le> k \<and> k < 32 \<and> bit a (k - 1)"
  by (simp only: bit_push_bit_iff possible_bit_word) simp

lemma bit_or_1: "bit ((a :: 32 word) OR 1) k \<longleftrightarrow> bit a k \<or> k = 0"
  by (simp add: bit_or_iff bit_1_iff)

lemma bit_shr1: "bit (drop_bit 1 (a :: 32 word)) k \<longleftrightarrow> bit a (Suc k)"
  by (simp only: bit_drop_bit_eq) simp

lemma and_1_neq_0: "(a :: 32 word) AND 1 \<noteq> 0 \<longleftrightarrow> bit a 0"
  by (simp add: and_one_eq bit_0 odd_iff_mod_2_eq_one)

lemma rowBits_step:
  assumes "rowBits f row w" and "0 \<le> row"
  shows "rowBits f (row + 1) (push_bit 1 (if fullRow f row then w OR 1 else w))"
  unfolding rowBits_def
proof (intro allI)
  fix k :: nat
  from assms(1) have w0: "\<not> bit w 0" by (simp add: rowBits_def)
  let ?v = "if fullRow f row then w OR 1 else w"
  have v: "bit ?v j \<longleftrightarrow> bit w j \<or> (j = 0 \<and> fullRow f row)" for j
    by (simp only: bit_or_1 split: if_splits) auto
  have "bit (push_bit 1 ?v) k \<longleftrightarrow> 1 \<le> k \<and> k < 32 \<and> (bit w (k - 1) \<or> (k - 1 = 0 \<and> fullRow f row))"
    by (simp only: bit_shl1 v)
  also have "\<dots> \<longleftrightarrow> 1 \<le> k \<and> k < 32 \<and> int k \<le> row + 1 \<and> fullRow f (row + 1 - int k)"
  proof (cases "k \<le> 1")
    case True
    show ?thesis
    proof (cases "k = 0")
      case True
      then show ?thesis by simp
    next
      case False
      with \<open>k \<le> 1\<close> have "k = 1" by simp
      with w0 assms(2) show ?thesis by simp
    qed
  next
    case False
    then have j: "1 \<le> k - 1" "int (k - 1) = int k - 1" by auto
    from assms(1) have "bit w (k - 1) \<longleftrightarrow>
        1 \<le> k - 1 \<and> k - 1 < 32 \<and> int (k - 1) \<le> row \<and> fullRow f (row - int (k - 1))"
      unfolding rowBits_def by blast
    with False j show ?thesis by (auto simp: algebra_simps)
  qed
  finally show "bit (push_bit 1 ?v) k \<longleftrightarrow>
        1 \<le> k \<and> k < 32 \<and> int k \<le> row + 1 \<and> fullRow f (row + 1 - int k)" .
qed

lemma scanLines_bits:
  "0 \<le> row \<Longrightarrow> row \<le> fieldHeight f \<Longrightarrow> rowBits f row w \<Longrightarrow>
   rowBits f (fieldHeight f) (fst (scanLines f row w c))"
proof (induction f row w c rule: scanLines.induct)
  case (1 f row w c)
  show ?case
  proof (cases "row < fieldHeight f")
    case False
    then have "scanLines f row w c = (w, c)" by (simp add: scanLines.simps [of f row w c])
    moreover from False "1.prems" have "row = fieldHeight f" by simp
    ultimately show ?thesis using "1.prems"(3) by simp
  next
    case True
    from rowBits_step [OF "1.prems"(3,1)]
    have st: "rowBits f (row + 1) (push_bit 1 (if fullRow f row then w OR 1 else w))" .
    from True "1.prems" have b: "0 \<le> row + 1" "row + 1 \<le> fieldHeight f" by simp_all
    show ?thesis
    proof (cases "rowFilled f row 0")
      case True
      with st have "rowBits f (row + 1) (push_bit 1 (w OR 1))" by (simp only: rowFilled_fullRow if_True)
      from "1.IH"(1) [OF \<open>row < fieldHeight f\<close> True b this] True \<open>row < fieldHeight f\<close>
      show ?thesis by (simp only: scanLines.simps [of f row w c] if_True)
    next
      case False
      with st have "rowBits f (row + 1) (push_bit 1 w)" by (simp only: rowFilled_fullRow if_False)
      from "1.IH"(2) [OF \<open>row < fieldHeight f\<close> False b this] False \<open>row < fieldHeight f\<close>
      show ?thesis by (simp only: scanLines.simps [of f row w c] if_True if_False)
    qed
  qed
qed

lemma rowBits_zero: "rowBits f 0 0"
  by (simp add: rowBits_def)

lemma memcpyRow_other: "r \<noteq> dst \<Longrightarrow> memcpyRow w fld dst src r = fld r"
  by (simp add: memcpyRow_def)

lemma memcpyRow_row: "0 \<le> c \<Longrightarrow> c < w \<Longrightarrow> memcpyRow w fld dst src dst c = fld src c"
  by (simp add: memcpyRow_def)

lemma copySpec_skip:
  assumes "0 \<le> src" and "P src" and "copySpec P w fld (src - 1) dst res"
  shows "copySpec P w fld src dst res"
proof -
  have cb: "countBetween P r src = countBetween P r (src - 1) + 1" if "r < src" for r
    using countBetween_step [OF that, of P] assms(2) by simp
  have cn: "countBetween (\<lambda>r. \<not> P r) (- 1) src = countBetween (\<lambda>r. \<not> P r) (- 1) (src - 1)"
    using countBetween_step [of "- 1" src "\<lambda>r. \<not> P r"] assms(1,2) by simp
  from assms(3) have
    a1: "\<And>r c. 0 \<le> r \<Longrightarrow> r \<le> src - 1 \<Longrightarrow> \<not> P r \<Longrightarrow> 0 \<le> c \<Longrightarrow> c < w \<Longrightarrow>
        res (r + (dst - (src - 1)) + countBetween P r (src - 1)) c = fld r c"
    and a2: "\<And>r. dst < r \<Longrightarrow> res r = fld r"
    and a3: "\<And>p. dst - countBetween (\<lambda>r. \<not> P r) (- 1) (src - 1) < p \<Longrightarrow> p \<le> dst \<Longrightarrow>
          (\<exists>r. 0 \<le> r \<and> r \<le> src - 1 \<and> \<not> P r \<and> p = r + (dst - (src - 1)) + countBetween P r (src - 1))"
    unfolding copySpec_def by blast+
  show ?thesis
    unfolding copySpec_def
  proof (intro conjI allI impI)
    fix r c
    assume h: "0 \<le> r \<and> r \<le> src \<and> \<not> P r \<and> 0 \<le> c \<and> c < w"
    with assms(2) have "r \<noteq> src" by auto
    with h have lt: "r < src" by simp
    have eq: "r + (dst - src) + countBetween P r src = r + (dst - (src - 1)) + countBetween P r (src - 1)"
      using cb [OF lt] by linarith
    from a1 [of r c] h lt show "res (r + (dst - src) + countBetween P r src) c = fld r c"
      unfolding eq by simp
  next
    fix r assume "dst < r" then show "res r = fld r" by (rule a2)
  next
    fix p
    assume "dst - countBetween (\<lambda>r. \<not> P r) (- 1) src < p \<and> p \<le> dst"
    with cn a3 [of p] obtain r where r: "0 \<le> r" "r \<le> src - 1" "\<not> P r"
      "p = r + (dst - (src - 1)) + countBetween P r (src - 1)" by auto
    then have "r < src" by simp
    from cb [OF this] r
    show "\<exists>r. 0 \<le> r \<and> r \<le> src \<and> \<not> P r \<and> p = r + (dst - src) + countBetween P r src"
      by (intro exI [of _ r]) simp
  qed
qed

lemma copySpec_copy:
  assumes "0 \<le> src" and "src \<le> dst" and "\<not> P src"
    and fld': "\<And>r. r \<noteq> dst \<Longrightarrow> fld' r = fld r"
      "\<And>c. 0 \<le> c \<Longrightarrow> c < w \<Longrightarrow> fld' dst c = fld src c"
    and "copySpec P w fld' (src - 1) (dst - 1) res"
  shows "copySpec P w fld src dst res"
proof -
  have cb: "countBetween P r src = countBetween P r (src - 1)" if "r < src" for r
    using countBetween_step [OF that, of P] assms(3) by simp
  have cn: "countBetween (\<lambda>r. \<not> P r) (- 1) src = countBetween (\<lambda>r. \<not> P r) (- 1) (src - 1) + 1"
    using countBetween_step [of "- 1" src "\<lambda>r. \<not> P r"] assms(1,3) by simp
  from assms(6) have
    a1: "\<And>r c. 0 \<le> r \<Longrightarrow> r \<le> src - 1 \<Longrightarrow> \<not> P r \<Longrightarrow> 0 \<le> c \<Longrightarrow> c < w \<Longrightarrow>
        res (r + (dst - 1 - (src - 1)) + countBetween P r (src - 1)) c = fld' r c"
    and a2: "\<And>r. dst - 1 < r \<Longrightarrow> res r = fld' r"
    and a3: "\<And>p. dst - 1 - countBetween (\<lambda>r. \<not> P r) (- 1) (src - 1) < p \<Longrightarrow> p \<le> dst - 1 \<Longrightarrow>
          (\<exists>r. 0 \<le> r \<and> r \<le> src - 1 \<and> \<not> P r
             \<and> p = r + (dst - 1 - (src - 1)) + countBetween P r (src - 1))"
    unfolding copySpec_def by blast+
  show ?thesis
    unfolding copySpec_def
  proof (intro conjI allI impI)
    fix r c
    assume h: "0 \<le> r \<and> r \<le> src \<and> \<not> P r \<and> 0 \<le> c \<and> c < w"
    show "res (r + (dst - src) + countBetween P r src) c = fld r c"
    proof (cases "r = src")
      case True
      then have "r + (dst - src) + countBetween P r src = dst" by (simp add: countBetween_empty)
      moreover have "res dst = fld' dst" by (rule a2) simp
      ultimately show ?thesis using fld'(2) [of c] h True by simp
    next
      case False
      with h have lt: "r < src" by simp
      with assms(2) have "r \<noteq> dst" by simp
      have eq: "r + (dst - src) + countBetween P r src
          = r + (dst - 1 - (src - 1)) + countBetween P r (src - 1)"
        using cb [OF lt] by linarith
      from a1 [of r c] h lt fld'(1) [OF \<open>r \<noteq> dst\<close>] show ?thesis
        unfolding eq by simp
    qed
  next
    fix r assume "dst < r"
    then have "res r = fld' r" "r \<noteq> dst" using a2 [of r] by simp_all
    with fld'(1) show "res r = fld r" by simp
  next
    fix p
    assume h: "dst - countBetween (\<lambda>r. \<not> P r) (- 1) src < p \<and> p \<le> dst"
    show "\<exists>r. 0 \<le> r \<and> r \<le> src \<and> \<not> P r \<and> p = r + (dst - src) + countBetween P r src"
    proof (cases "p = dst")
      case True
      with assms(1,3) show ?thesis
        by (intro exI [of _ src]) (simp add: countBetween_empty)
    next
      case False
      with h cn a3 [of p] obtain r where r: "0 \<le> r" "r \<le> src - 1" "\<not> P r"
        "p = r + (dst - 1 - (src - 1)) + countBetween P r (src - 1)" by auto
      then have "r < src" by simp
      from cb [OF this] r show ?thesis
        by (intro exI [of _ r]) simp
    qed
  qed
qed

lemma copySpec_done: "src \<le> - 1 \<Longrightarrow> copySpec P w fld src dst fld"
  unfolding copySpec_def by (auto simp: countBetween_empty)

lemma copyLines_spec:
  "src \<le> dst \<Longrightarrow>
   (\<And>r. 0 \<le> r \<Longrightarrow> r \<le> src \<Longrightarrow> bit bits (nat (src - r)) = P r) \<Longrightarrow>
   copySpec P w fld src dst (copyLines w fld src dst bits)"
proof (induction w fld src dst bits rule: copyLines.induct)
  case (1 w fld src dst bits)
  show ?case
  proof (cases "0 \<le> src")
    case False
    then have "copyLines w fld src dst bits = fld" by (subst copyLines.simps) simp
    with False show ?thesis by (simp add: copySpec_done)
  next
    case True
    have head: "bit bits 0 = P src" using "1.prems"(2) [of src] True by simp
    have tail: "bit (drop_bit 1 bits) (nat (src - 1 - r)) = P r" if "0 \<le> r" "r \<le> src - 1" for r
    proof -
      from that have "Suc (nat (src - 1 - r)) = nat (src - r)" by simp
      with "1.prems"(2) [of r] that show ?thesis by (simp only: bit_shr1)
    qed
    show ?thesis
    proof (cases "bits AND 1 \<noteq> 0")
      case True
      with head have p: "P src" using and_1_neq_0 [of bits] by blast
      have "copySpec P w fld (src - 1) dst (copyLines w fld (src - 1) dst (drop_bit 1 bits))"
        using "1.IH"(1) [OF \<open>0 \<le> src\<close> True] "1.prems"(1) \<open>0 \<le> src\<close> tail by simp
      moreover have "copyLines w fld src dst bits = copyLines w fld (src - 1) dst (drop_bit 1 bits)"
        using True \<open>0 \<le> src\<close> by (subst copyLines.simps) simp
      ultimately show ?thesis
        using copySpec_skip [where P = P, OF \<open>0 \<le> src\<close> p] by simp
    next
      case False
      with head have p: "\<not> P src" using and_1_neq_0 [of bits] by blast
      let ?fld' = "if src \<noteq> dst then memcpyRow w fld dst src else fld"
      have f1: "?fld' r = fld r" if "r \<noteq> dst" for r
        using that by (simp add: memcpyRow_other)
      have f2: "?fld' dst c = fld src c" if "0 \<le> c" "c < w" for c
        using that by (simp add: memcpyRow_row)
      have "copySpec P w ?fld' (src - 1) (dst - 1)
              (copyLines w ?fld' (src - 1) (dst - 1) (drop_bit 1 bits))"
        using "1.IH"(2) [OF \<open>0 \<le> src\<close> False] "1.prems"(1) \<open>0 \<le> src\<close> tail by simp
      moreover have "copyLines w fld src dst bits
          = copyLines w ?fld' (src - 1) (dst - 1) (drop_bit 1 bits)"
        using False \<open>0 \<le> src\<close> by (subst copyLines.simps) simp
      ultimately show ?thesis
        using copySpec_copy [where P = P, OF \<open>0 \<le> src\<close> "1.prems"(1) p f1 f2] by simp
    qed
  qed
qed

lemma memsetRow_other: "r \<noteq> row \<Longrightarrow> memsetRow w fld row r = fld r"
  by (simp add: memsetRow_def)

lemma memsetRow_row: "0 \<le> c \<Longrightarrow> c < w \<Longrightarrow> memsetRow w fld row row c = 0"
  by (simp add: memsetRow_def)

lemma zeroLines_spec:
  "(\<forall>r c. i \<le> r \<and> r < n \<and> 0 \<le> c \<and> c < w \<longrightarrow> zeroLines w fld i n r c = 0)
   \<and> (\<forall>r. r < i \<or> n \<le> r \<longrightarrow> zeroLines w fld i n r = fld r)"
proof (induction w fld i n rule: zeroLines.induct)
  case (1 w fld i n)
  show ?case
  proof (cases "i < n")
    case False
    then show ?thesis by (simp add: zeroLines.simps [of w fld i n])
  next
    case True
    have un: "zeroLines w fld i n = zeroLines w (memsetRow w fld i) (i + 1) n"
      using True by (subst zeroLines.simps) simp
    from "1.IH" [OF True] have
      ih1: "\<And>r c. i + 1 \<le> r \<Longrightarrow> r < n \<Longrightarrow> 0 \<le> c \<Longrightarrow> c < w \<Longrightarrow>
              zeroLines w (memsetRow w fld i) (i + 1) n r c = 0"
      and ih2: "\<And>r. r < i + 1 \<or> n \<le> r \<Longrightarrow>
              zeroLines w (memsetRow w fld i) (i + 1) n r = memsetRow w fld i r"
      by blast+
    show ?thesis
      unfolding un
    proof (intro conjI allI impI)
      fix r c
      assume h: "i \<le> r \<and> r < n \<and> 0 \<le> c \<and> c < w"
      show "zeroLines w (memsetRow w fld i) (i + 1) n r c = 0"
      proof (cases "r = i")
        case True
        with ih2 [of i] h show ?thesis by (simp add: memsetRow_row)
      next
        case False
        with h ih1 [of r c] show ?thesis by simp
      qed
    next
      fix r
      assume h: "r < i \<or> n \<le> r"
      with True have "r \<noteq> i" by auto
      with h ih2 [of r] show "zeroLines w (memsetRow w fld i) (i + 1) n r = fld r"
        by (auto simp: memsetRow_other)
    qed
  qed
qed

lemma countBetween_card:
  "countBetween P (- 1) (h - 1) = int (card {r. 0 \<le> r \<and> r < h \<and> P r})"
proof -
  have "{r. - 1 < r \<and> r \<le> h - 1 \<and> P r} = {r. 0 \<le> r \<and> r < h \<and> P r}" by auto
  then show ?thesis by (simp add: countBetween_def)
qed

lemma clearLines_unfold:
  "clearLines f =
     (snd (scanLines f 0 0 0),
      f\<lparr>b := zeroLines (fieldWidth f)
              (copyLines (fieldWidth f) (b f) (fieldHeight f - 1) (fieldHeight f - 1)
                 (drop_bit 1 (fst (scanLines f 0 0 0))))
              0 (snd (scanLines f 0 0 0))\<rparr>)"
  unfolding clearLines_def Let_def by (cases "scanLines f 0 0 0") simp

lemma foundLines_bits:
  assumes "0 \<le> fieldHeight f" and "0 \<le> r" and "r \<le> fieldHeight f - 1"
  shows "bit (drop_bit 1 (fst (scanLines f 0 0 0))) (nat (fieldHeight f - 1 - r))
         \<longleftrightarrow> fullRow f r \<and> fieldHeight f - r < 32"
proof -
  have rb: "rowBits f (fieldHeight f) (fst (scanLines f 0 0 0))"
    by (rule scanLines_bits [OF _ assms(1) rowBits_zero]) simp
  from assms have k: "Suc (nat (fieldHeight f - 1 - r)) = nat (fieldHeight f - r)"
    "int (nat (fieldHeight f - r)) = fieldHeight f - r" by simp_all
  have "bit (drop_bit 1 (fst (scanLines f 0 0 0))) (nat (fieldHeight f - 1 - r))
      \<longleftrightarrow> bit (fst (scanLines f 0 0 0)) (nat (fieldHeight f - r))"
    by (simp only: bit_shr1 k)
  also from rb have "\<dots> \<longleftrightarrow> 1 \<le> nat (fieldHeight f - r) \<and> nat (fieldHeight f - r) < 32
      \<and> int (nat (fieldHeight f - r)) \<le> fieldHeight f
      \<and> fullRow f (fieldHeight f - int (nat (fieldHeight f - r)))"
    unfolding rowBits_def by blast
  also from assms have "\<dots> \<longleftrightarrow> fullRow f r \<and> fieldHeight f - r < 32"
    unfolding k by auto
  finally show ?thesis .
qed

lemma clearLines_facts:
  assumes h32: "fieldHeight f \<le> 32"
  shows "fst (clearLines f) = int (card {r. 0 \<le> r \<and> r < fieldHeight f \<and> fullRow f r})
    \<and> (\<forall>r c. 0 \<le> r \<and> r < fieldHeight f \<and> \<not> fullRow f r \<and> 0 \<le> c \<and> c < fieldWidth f \<longrightarrow>
          b (snd (clearLines f)) (r + countBetween (fullRow f) r (fieldHeight f - 1)) c = b f r c)
    \<and> (\<forall>r. 0 \<le> r \<and> r < fieldHeight f \<and> \<not> fullRow f r \<longrightarrow>
          fst (clearLines f) \<le> r + countBetween (fullRow f) r (fieldHeight f - 1)
          \<and> r + countBetween (fullRow f) r (fieldHeight f - 1) < fieldHeight f)
    \<and> (\<forall>r1 r2. 0 \<le> r1 \<and> r1 < r2 \<and> r2 < fieldHeight f \<and> \<not> fullRow f r1 \<and> \<not> fullRow f r2 \<longrightarrow>
          r1 + countBetween (fullRow f) r1 (fieldHeight f - 1)
            < r2 + countBetween (fullRow f) r2 (fieldHeight f - 1))
    \<and> (\<forall>r c. 0 \<le> r \<and> r < fst (clearLines f) \<and> 0 \<le> c \<and> c < fieldWidth f \<longrightarrow>
          b (snd (clearLines f)) r c = 0)
    \<and> (0 < fieldWidth f \<longrightarrow>
          (\<forall>r. 0 \<le> r \<and> r < fieldHeight f \<longrightarrow> \<not> fullRow (snd (clearLines f)) r))
    \<and> fieldWidth (snd (clearLines f)) = fieldWidth f
    \<and> fieldHeight (snd (clearLines f)) = fieldHeight f"
proof -
  define H where "H = fieldHeight f"
  define W where "W = fieldWidth f"
  define full where "full = fullRow f"
  define cnt where "cnt = snd (scanLines f 0 0 0)"
  define bits where "bits = drop_bit 1 (fst (scanLines f 0 0 0))"
  define R1 where "R1 = copyLines W (b f) (H - 1) (H - 1) bits"
  define R2 where "R2 = zeroLines W R1 0 cnt"
  define P where "P = (\<lambda>r. full r \<and> H - r < 32)"
  define pos where "pos = (\<lambda>r. r + countBetween full r (H - 1))"
  have res: "clearLines f = (cnt, f\<lparr>b := R2\<rparr>)"
    unfolding cnt_def R2_def R1_def bits_def W_def H_def by (rule clearLines_unfold)
  have cnt: "cnt = countBetween full (- 1) (H - 1)"
    unfolding cnt_def full_def H_def using scanLines_count [of f 0 0 0] by simp
  have cnt_card: "cnt = int (card {r. 0 \<le> r \<and> r < H \<and> full r})"
    unfolding cnt by (rule countBetween_card)

  have spec: "copySpec P W (b f) (H - 1) (H - 1) R1"
  proof (cases "0 \<le> H")
    case True
    have "bit bits (nat (H - 1 - r)) = P r" if "0 \<le> r" "r \<le> H - 1" for r
      unfolding bits_def P_def full_def H_def
      using foundLines_bits [of f r] True that by (simp add: H_def)
    then show ?thesis
      unfolding R1_def by (intro copyLines_spec) simp_all
  next
    case False
    then have "H - 1 < 0" by simp
    then have "R1 = b f" unfolding R1_def by (subst copyLines.simps) simp
    with False show ?thesis by (simp add: copySpec_done)
  qed
  from spec have
    s1: "\<And>r c. 0 \<le> r \<Longrightarrow> r \<le> H - 1 \<Longrightarrow> \<not> P r \<Longrightarrow> 0 \<le> c \<Longrightarrow> c < W \<Longrightarrow>
           R1 (r + countBetween P r (H - 1)) c = b f r c"
    and s3: "\<And>p. H - 1 - countBetween (\<lambda>r. \<not> P r) (- 1) (H - 1) < p \<Longrightarrow> p \<le> H - 1 \<Longrightarrow>
           \<exists>r. 0 \<le> r \<and> r \<le> H - 1 \<and> \<not> P r \<and> p = r + countBetween P r (H - 1)"
    unfolding copySpec_def by (simp_all del: One_nat_def)
  from zeroLines_spec [of 0 cnt W R1] have
    z1: "\<And>r c. 0 \<le> r \<Longrightarrow> r < cnt \<Longrightarrow> 0 \<le> c \<Longrightarrow> c < W \<Longrightarrow> R2 r c = 0"
    and z2: "\<And>r. cnt \<le> r \<Longrightarrow> R2 r = R1 r"
    unfolding R2_def by blast+

  have PF: "countBetween P r (H - 1) = countBetween full r (H - 1)" if "0 \<le> r" for r
  proof (rule countBetween_cong)
    fix r' assume "r < r'" "r' \<le> H - 1"
    with that h32 show "P r' = full r'" unfolding P_def H_def by auto
  qed
  have first: "cnt = (if full 0 then 1 else 0) + countBetween full 0 (H - 1)" if "0 < H"
    unfolding cnt using countBetween_first [of "- 1" "H - 1" full] that by simp
  have pfirst: "countBetween P (- 1) (H - 1) = (if P 0 then 1 else 0) + countBetween full 0 (H - 1)"
    if "0 < H"
    using countBetween_first [of "- 1" "H - 1" P] that PF [of 0] by simp
  have ple: "countBetween P (- 1) (H - 1) \<le> cnt" if "0 < H"
    using first [OF that] pfirst [OF that] by (auto simp: P_def)
  have ncompl: "countBetween (\<lambda>r. \<not> P r) (- 1) (H - 1) = H - countBetween P (- 1) (H - 1)"
    if "0 < H"
    using countBetween_compl [of "- 1" "H - 1" P] that by simp
  have pos_ge: "cnt \<le> pos r" and pos_lt: "pos r < H" if r: "0 \<le> r" "r < H" "\<not> full r" for r
  proof -
    have "cnt = countBetween full (- 1) r + countBetween full r (H - 1)"
      unfolding cnt using r by (intro countBetween_split) simp_all
    moreover have "countBetween full (- 1) r = countBetween full (- 1) (r - 1)"
      using countBetween_step [of "- 1" r full] r by simp
    moreover have "countBetween full (- 1) (r - 1) \<le> r - 1 - (- 1)"
      using r by (intro countBetween_le) simp
    ultimately show "cnt \<le> pos r" unfolding pos_def by simp
    have "countBetween full r (H - 1) \<le> H - 1 - r"
      using r by (intro countBetween_le) simp
    then show "pos r < H" unfolding pos_def by simp
  qed
  have pos_mono: "pos r1 < pos r2"
    if r: "0 \<le> r1" "r1 < r2" "r2 < H" "\<not> full r2" for r1 r2
  proof -
    have "countBetween full r1 (H - 1) = countBetween full r1 r2 + countBetween full r2 (H - 1)"
      using r by (intro countBetween_split) simp_all
    moreover have "countBetween full r1 r2 = countBetween full r1 (r2 - 1)"
      using countBetween_step [of r1 r2 full] r by simp
    moreover have "countBetween full r1 (r2 - 1) \<le> r2 - 1 - r1"
      using r by (intro countBetween_le) simp
    ultimately show ?thesis unfolding pos_def by simp
  qed

  have keep: "R2 (pos r) c = b f r c"
    if r: "0 \<le> r" "r < H" "\<not> full r" and c: "0 \<le> c" "c < W" for r c
  proof -
    from r have "\<not> P r" by (simp add: P_def)
    with s1 [of r c] r c PF [of r] have "R1 (pos r) c = b f r c" by (simp add: pos_def)
    with z2 [OF pos_ge [OF r]] show ?thesis by simp
  qed

  have nofull: "\<exists>c. 0 \<le> c \<and> c < W \<and> R2 p c = 0" if w: "0 < W" and p: "0 \<le> p" "p < H" for p
  proof (cases "p < cnt")
    case True
    with z1 [of p 0] p w show ?thesis by (intro exI [of _ 0]) simp
  next
    case False
    from p have hp: "0 < H" by simp
    from False ple [OF hp] ncompl [OF hp] p
    have "H - 1 - countBetween (\<lambda>r. \<not> P r) (- 1) (H - 1) < p" "p \<le> H - 1" by simp_all
    from s3 [OF this] obtain r where r: "0 \<le> r" "r \<le> H - 1" "\<not> P r"
      and pr: "p = r + countBetween P r (H - 1)" by blast
    from pr PF [OF r(1)] have ppos: "p = pos r" by (simp add: pos_def)
    have nf: "\<not> full r"
    proof
      assume fr: "full r"
      with r(3) have "\<not> H - r < 32" by (simp add: P_def)
      with h32 r(1) have "r = 0" unfolding H_def by simp
      with fr first [OF hp] ppos have "cnt = 1 + p" by (simp add: pos_def)
      with False show False by simp
    qed
    then obtain c where c: "0 \<le> c" "c < W" "b f r c = 0"
      unfolding full_def fullRow_def W_def by blast
    from keep [of r c] r nf c ppos show ?thesis by (intro exI [of _ c]) simp
  qed
  show ?thesis
    unfolding res fst_conv snd_conv
  proof (intro conjI allI impI)
    show "cnt = int (card {r. 0 \<le> r \<and> r < fieldHeight f \<and> fullRow f r})"
      using cnt_card by (simp add: H_def full_def)
  next
    fix r c
    assume "0 \<le> r \<and> r < fieldHeight f \<and> \<not> fullRow f r \<and> 0 \<le> c \<and> c < fieldWidth f"
    then show "b (f\<lparr>b := R2\<rparr>) (r + countBetween (fullRow f) r (fieldHeight f - 1)) c = b f r c"
      using keep [of r c] by (simp add: H_def W_def full_def pos_def)
  next
    fix r
    assume a: "0 \<le> r \<and> r < fieldHeight f \<and> \<not> fullRow f r"
    then show "cnt \<le> r + countBetween (fullRow f) r (fieldHeight f - 1)"
      using pos_ge [of r] by (simp add: H_def full_def pos_def)
    from a show "r + countBetween (fullRow f) r (fieldHeight f - 1) < fieldHeight f"
      using pos_lt [of r] by (simp add: H_def full_def pos_def)
  next
    fix r1 r2
    assume "0 \<le> r1 \<and> r1 < r2 \<and> r2 < fieldHeight f \<and> \<not> fullRow f r1 \<and> \<not> fullRow f r2"
    then show "r1 + countBetween (fullRow f) r1 (fieldHeight f - 1)
            < r2 + countBetween (fullRow f) r2 (fieldHeight f - 1)"
      using pos_mono [of r1 r2] by (simp add: H_def full_def pos_def)
  next
    fix r c
    assume "0 \<le> r \<and> r < cnt \<and> 0 \<le> c \<and> c < fieldWidth f"
    then show "b (f\<lparr>b := R2\<rparr>) r c = 0"
      using z1 [of r c] by (simp add: W_def)
  next
    fix r
    assume "0 < fieldWidth f" and "0 \<le> r \<and> r < fieldHeight f"
    then show "\<not> fullRow (f\<lparr>b := R2\<rparr>) r"
      using nofull [of r] unfolding fullRow_def by (auto simp: W_def H_def)
  next
    show "fieldWidth (f\<lparr>b := R2\<rparr>) = fieldWidth f" by simp
    show "fieldHeight (f\<lparr>b := R2\<rparr>) = fieldHeight f" by simp
  qed
qed

text \<open>
  Claim C2, as worded, covers every field of at most 32 rows. It fails for a field
  without columns (the configuration layer accepts a width of 0): every row of such a
  field passes the fill test of the first pass, so \<^verbatim>\<open>clearLines\<close> counts and returns all
  rows, but nothing can be removed and afterwards every row still passes the same test.
  If a row without cells is not to count as filled, the returned number is wrong
  instead.
\<close>

theorem clearLines_zero_width_counterexample:
  "fieldHeight zeroWidthExample \<le> 32
   \<and> fst (clearLines zeroWidthExample) = 1
   \<and> fieldHeight (snd (clearLines zeroWidthExample)) = 1
   \<and> fullRow (snd (clearLines zeroWidthExample)) 0"
proof -
  have h: "fieldHeight zeroWidthExample \<le> 32" by code_simp
  have c: "fst (clearLines zeroWidthExample) = 1" by code_simp
  have w: "fieldWidth zeroWidthExample = 0" "fieldHeight zeroWidthExample = 1" by code_simp+
  from clearLines_facts [OF h] w have
    "fieldWidth (snd (clearLines zeroWidthExample)) = 0"
    "fieldHeight (snd (clearLines zeroWidthExample)) = 1" by simp_all
  then show ?thesis using h c by (simp add: fullRow_def)
qed

text \<open>
  Claim C2, amended. For every field with \<open>fieldHeight \<le> 32\<close>, \<^verbatim>\<open>clearLines\<close> returns the
  number of filled rows. It removes exactly those rows: every surviving row \<open>r\<close> is found,
  with its contents in the columns of the field, at row \<open>r\<close> plus the number of removed
  rows below it; these new positions lie between the returned count and the bottom of
  the field and keep the order of the surviving rows. The top rows, as many as were
  removed, are zero in the columns of the field. And in a field with at least one column
  no row is filled afterwards. The dimensions of the field are unchanged. All of this
  holds also at \<open>fieldHeight = 32\<close>, where the 32-bit mask loses the flag of row 0: that
  row, if filled, is then copied like a surviving row, but it lands among the top rows
  that the last loop zeroes.
\<close>

theorem clearLines_correct:
  assumes "fieldHeight f \<le> 32"
  shows "fst (clearLines f) = int (card {r. 0 \<le> r \<and> r < fieldHeight f \<and> fullRow f r})
    \<and> (\<forall>r c. 0 \<le> r \<and> r < fieldHeight f \<and> \<not> fullRow f r \<and> 0 \<le> c \<and> c < fieldWidth f \<longrightarrow>
          b (snd (clearLines f)) (r + countBetween (fullRow f) r (fieldHeight f - 1)) c = b f r c)
    \<and> (\<forall>r. 0 \<le> r \<and> r < fieldHeight f \<and> \<not> fullRow f r \<longrightarrow>
          fst (clearLines f) \<le> r + countBetween (fullRow f) r (fieldHeight f - 1)
          \<and> r + countBetween (fullRow f) r (fieldHeight f - 1) < fieldHeight f)
    \<and> (\<forall>r1 r2. 0 \<le> r1 \<and> r1 < r2 \<and> r2 < fieldHeight f \<and> \<not> fullRow f r1 \<and> \<not> fullRow f r2 \<longrightarrow>
          r1 + countBetween (fullRow f) r1 (fieldHeight f - 1)
            < r2 + countBetween (fullRow f) r2 (fieldHeight f - 1))
    \<and> (\<forall>r c. 0 \<le> r \<and> r < fst (clearLines f) \<and> 0 \<le> c \<and> c < fieldWidth f \<longrightarrow>
          b (snd (clearLines f)) r c = 0)
    \<and> (0 < fieldWidth f \<longrightarrow>
          (\<forall>r. 0 \<le> r \<and> r < fieldHeight f \<longrightarrow> \<not> fullRow (snd (clearLines f)) r))
    \<and> fieldWidth (snd (clearLines f)) = fieldWidth f
    \<and> fieldHeight (snd (clearLines f)) = fieldHeight f"
  using assms by (rule clearLines_facts)

text \<open>
  An instance: in the field of three rows and two columns the filled middle row is
  removed, the top row moves down by one and the new top row is empty.
\<close>

theorem clearLines_correct_witness:
  "fieldHeight threeRowExample \<le> 32 \<and> 0 < fieldWidth threeRowExample
   \<and> fullRow threeRowExample 1
   \<and> fst (clearLines threeRowExample) = 1
   \<and> b (snd (clearLines threeRowExample)) 1 0 = 5
   \<and> b (snd (clearLines threeRowExample)) 1 1 = 0
   \<and> b (snd (clearLines threeRowExample)) 0 0 = 0
   \<and> \<not> fullRow (snd (clearLines threeRowExample)) 1"
proof -
  have h: "fieldHeight threeRowExample \<le> 32" by code_simp
  have d: "fieldHeight threeRowExample = 3" "fieldWidth threeRowExample = 2" by code_simp+
  have "\<not> rowFilled threeRowExample 0 0" "rowFilled threeRowExample 1 0"
    "\<not> rowFilled threeRowExample 2 0" by code_simp+
  then have fr: "\<not> fullRow threeRowExample 0" "fullRow threeRowExample 1"
    "\<not> fullRow threeRowExample 2" by (simp_all add: rowFilled_fullRow)
  have cb: "countBetween (fullRow threeRowExample) 0 2 = 1"
    using fr by (simp add: countBetween_step [of 0 2] countBetween_step [of 0 1] countBetween_empty)
  have v: "b threeRowExample 0 0 = 5" "b threeRowExample 0 1 = 0" by code_simp+
  have c: "fst (clearLines threeRowExample) = 1" by code_simp
  note inst = clearLines_correct [OF h]
  from inst have keep: "\<And>r c. 0 \<le> r \<Longrightarrow> r < fieldHeight threeRowExample \<Longrightarrow>
      \<not> fullRow threeRowExample r \<Longrightarrow> 0 \<le> c \<Longrightarrow> c < fieldWidth threeRowExample \<Longrightarrow>
      b (snd (clearLines threeRowExample))
        (r + countBetween (fullRow threeRowExample) r (fieldHeight threeRowExample - 1)) c
      = b threeRowExample r c"
    by blast
  from inst have zero: "\<And>r c. 0 \<le> r \<Longrightarrow> r < fst (clearLines threeRowExample) \<Longrightarrow>
      0 \<le> c \<Longrightarrow> c < fieldWidth threeRowExample \<Longrightarrow>
      b (snd (clearLines threeRowExample)) r c = 0"
    by blast
  from inst have nofull: "\<And>r. 0 < fieldWidth threeRowExample \<Longrightarrow> 0 \<le> r \<Longrightarrow>
      r < fieldHeight threeRowExample \<Longrightarrow> \<not> fullRow (snd (clearLines threeRowExample)) r"
    by blast
  have k: "b (snd (clearLines threeRowExample)) 1 0 = 5"
    "b (snd (clearLines threeRowExample)) 1 1 = 0"
    using keep [of 0 0] keep [of 0 1] fr(1) v by (simp_all add: cb d)
  have z: "b (snd (clearLines threeRowExample)) 0 0 = 0"
    using zero [of 0 0] by (simp add: c d)
  have n: "\<not> fullRow (snd (clearLines threeRowExample)) 1"
    using nofull [of 1] by (simp add: d)
  from h d fr c k z n show ?thesis by simp
qed

end
